theory Spec2Isabelle
  imports Main
begin

section \<open>JavaScript values\<close>

text \<open>
  The fragment of JavaScript values the three source files handle.  A number is an integer
  (the sources only use small integer literals); the functions that compute with numbers
  answer only inside the range where a double is that integer exactly, see \<open>safe_integer\<close>.
  An array is a list of slots;
  a slot that was never assigned (a hole of a sparse array, for which \<open>i in arr\<close> is false)
  is \<open>None\<close>, an assigned slot is \<open>Some v\<close>, also when \<open>v\<close> is \<open>undefined\<close>.
  A symbol is identified by the number of the \<open>Symbol()\<close> call that created it, so that two
  symbols are equal exactly when they are the same symbol.
\<close>

datatype jsval =
    Undefined
  | Null
  | Bool bool
  | Num int
  | Str string
  | Symbol nat
  | Arr "jsval option list"

text \<open>
  \<open>TypeError\<close> is the exception that JavaScript throws.  \<open>NotModelled\<close> is no value of the
  program: a function of this theory returns it where the value that the program computes
  lies outside the fragment above, so that it states nothing about that case.
\<close>

datatype error = TypeError | NotModelled

text \<open>
  The integers from \<open>-(2^53 - 1)\<close> to \<open>2^53 - 1\<close> (\<open>Number.MAX_SAFE_INTEGER\<close>).  On these a
  double is exact, the sum of two of them that is again one of them is computed exactly,
  and the conversion to a string gives the decimal digits without an exponent.
\<close>

definition safe_integer :: "int \<Rightarrow> bool" where
  "safe_integer n = (\<bar>n\<bar> \<le> 9007199254740991)"

section \<open>Curry with placeholders (src/falt_Polyfil.ts, lines 91 to 155)\<close>

text \<open>\<open>curry.placeholder = Symbol()\<close>: the only symbol the program creates.\<close>

definition placeholder :: jsval where
  "placeholder = Symbol 0"

text \<open>
  The function handed to \<open>curry\<close>: what it computes from the list of its actual arguments,
  and its \<open>length\<close> property.  For a function as declared, \<open>length\<close> is the number of its
  parameters; the property is configurable, so it can be redefined to any number, and the
  code reads it as it is.  It is an integer here.
\<close>

record 'r target =
  fn :: "jsval list \<Rightarrow> 'r"
  fn_length :: int

text \<open>
  \<open>Array.prototype.slice(start, end)\<close> with both indices given: a negative index counts from
  the end, and both are clamped to the array.
\<close>

definition slice :: "'a list \<Rightarrow> int \<Rightarrow> int \<Rightarrow> 'a list" where
  "slice xs start end =
     (let len = int (length xs);
          k = (if start < 0 then max (len + start) 0 else min start len);
          final = (if end < 0 then max (len + end) 0 else min end len)
      in take (nat (final - k)) (drop (nat k) xs))"

text \<open>\<open>Array.prototype.includes\<close>, used by the source to look for a symbol.\<close>

definition includes_js :: "jsval list \<Rightarrow> jsval \<Rightarrow> bool" where
  "includes_js xs v = (v \<in> set xs)"

text \<open>
  \<open>isValid\<close> (lines 110 to 112):
  \<open>arg.length >= fn.length && !arg.slice(0, fn.length).includes(curry.placeholder)\<close>.
\<close>

definition isValid :: "'r target \<Rightarrow> jsval list \<Rightarrow> bool" where
  "isValid t arg =
     (int (length arg) \<ge> fn_length t \<and>
      \<not> includes_js (slice arg 0 (fn_length t)) placeholder)"

text \<open>
  What a call returns: the value the target function returned, or the anonymous function
  of line 120.  That function closes over \<open>fn\<close>, \<open>curried\<close> and the array \<open>arg\<close>; \<open>fn\<close> and
  \<open>curried\<close> are the same for a whole chain, so the closure is represented by the content
  of \<open>arg\<close>, its pending argument list.
\<close>

datatype 'r outcome = Result 'r | Continuation "jsval list"

text \<open>\<open>curried(...arg)\<close>, lines 100 to 145.\<close>

definition curried :: "'r target \<Rightarrow> jsval list \<Rightarrow> 'r outcome" where
  "curried t arg = (if isValid t arg then Result (fn t arg) else Continuation arg)"

text \<open>
  The \<open>arg.map\<close> of lines 131 to 135.  The callback visits the items of \<open>arg\<close> from left to
  right; \<open>nextArg.shift()\<close> removes the first element of \<open>nextArg\<close> and returns it, so the
  remaining \<open>nextArg\<close> is threaded through the walk.  The result is \<open>resultArg\<close> together
  with what is left of \<open>nextArg\<close>.
\<close>

fun map_shift :: "jsval list \<Rightarrow> jsval list \<Rightarrow> jsval list \<times> jsval list" where
  "map_shift [] nextArg = ([], nextArg)"
| "map_shift (item # items) nextArg =
     (if item = placeholder \<and> length nextArg \<noteq> 0
      then (let (resultArg, rest) = map_shift items (tl nextArg)
            in (hd nextArg # resultArg, rest))
      else (let (resultArg, rest) = map_shift items nextArg
            in (item # resultArg, rest)))"

text \<open>
  A call of the function of line 120 whose closure holds \<open>arg\<close>:
  \<open>curried(...resultArg, ...nextArg)\<close>.
\<close>

definition continuation :: "'r target \<Rightarrow> jsval list \<Rightarrow> jsval list \<Rightarrow> 'r outcome" where
  "continuation t arg nextArg =
     (let (resultArg, rest) = map_shift arg nextArg in curried t (resultArg @ rest))"

text \<open>
  \<open>curry(fn)\<close>, lines 91 to 146: its body is the single \<open>return\<close> of \<open>curried\<close>; no statement
  of it inspects \<open>fn\<close> or throws.
\<close>

definition curry_fn :: "'r target \<Rightarrow> error + (jsval list \<Rightarrow> 'r outcome)" where
  "curry_fn t = Inr (curried t)"

section \<open>The merge step as the specification words it\<close>

text \<open>
  Walk \<open>pending\<close> left to right with a cursor \<open>i\<close> into \<open>newArgs\<close>: a slot that holds the
  placeholder while the cursor is not exhausted takes the value at the cursor, and the
  cursor advances by one; any other slot is left unchanged.  Returns the filled list and
  the final cursor.
\<close>

fun merge_step :: "jsval list \<Rightarrow> jsval list \<Rightarrow> nat \<Rightarrow> jsval list \<times> nat" where
  "merge_step [] newArgs i = ([], i)"
| "merge_step (slot # pending) newArgs i =
     (if slot = placeholder \<and> i < length newArgs
      then (let (filled, j) = merge_step pending newArgs (Suc i) in (newArgs ! i # filled, j))
      else (let (filled, j) = merge_step pending newArgs i in (slot # filled, j)))"

section \<open>Chains of calls\<close>

text \<open>
  \<open>c(g1)(g2)...\<close>: each further call is made on what the previous call returned.  The
  first argument is the function of line 120 as a function of its closure and its
  arguments.  A call made on a value that the target function returned is not a call into
  the curried function any more; the chain gives \<open>None\<close> there.
\<close>

fun calls ::
  "(jsval list \<Rightarrow> jsval list \<Rightarrow> 'r outcome) \<Rightarrow> 'r outcome \<Rightarrow> jsval list list \<Rightarrow> 'r outcome option"
where
  "calls k out [] = Some out"
| "calls k (Continuation arg) (nextArg # later) = calls k (k arg nextArg) later"
| "calls k (Result r) (nextArg # later) = None"

text \<open>\<open>curry(fn)(first)(later1)(later2)...\<close> for the curry with placeholders.\<close>

definition chain :: "'r target \<Rightarrow> jsval list \<Rightarrow> jsval list list \<Rightarrow> 'r outcome option" where
  "chain t first later = calls (continuation t) (curried t first) later"

section \<open>Curry without placeholders (src/unnamed/part_000, lines 28 to 39)\<close>

definition curried_simple :: "'r target \<Rightarrow> jsval list \<Rightarrow> 'r outcome" where
  "curried_simple t arg =
     (if int (length arg) \<ge> fn_length t then Result (fn t arg) else Continuation arg)"

text \<open>Line 37: \<open>(...nextArg) => curried(...arg, ...nextArg)\<close>.\<close>

definition continuation_simple :: "'r target \<Rightarrow> jsval list \<Rightarrow> jsval list \<Rightarrow> 'r outcome" where
  "continuation_simple t arg nextArg = curried_simple t (arg @ nextArg)"

definition chain_simple :: "'r target \<Rightarrow> jsval list \<Rightarrow> jsval list list \<Rightarrow> 'r outcome option" where
  "chain_simple t first later = calls (continuation_simple t) (curried_simple t first) later"

section \<open>The example target functions\<close>

text \<open>The value of the \<open>i\<close>-th parameter in a call: \<open>undefined\<close> when no argument was passed.\<close>

definition param :: "jsval list \<Rightarrow> nat \<Rightarrow> jsval" where
  "param args i = (if i < length args then args ! i else Undefined)"

text \<open>
  \<open>sum(a: number, b: number, c: number): number\<close> of part_000, lines 42 to 44, which
  returns \<open>a + b + c\<close>, that is \<open>(a + b) + c\<close>.  The model answers for three safe integers
  whose sums \<open>a + b\<close> and \<open>(a + b) + c\<close> are safe integers.  It gives \<open>None\<close>, and so states
  nothing, everywhere else: where a sum leaves the range in which doubles are exact, and
  where an argument is not a number, outside the declared parameter type (JavaScript then
  concatenates strings or computes \<open>NaN\<close>, neither of which is modelled).
\<close>

definition sum_fn :: "jsval list \<Rightarrow> jsval option" where
  "sum_fn args =
     (case (param args 0, param args 1, param args 2) of
        (Num a, Num b, Num c) \<Rightarrow>
          if safe_integer a \<and> safe_integer b \<and> safe_integer c \<and>
             safe_integer (a + b) \<and> safe_integer (a + b + c)
          then Some (Num (a + b + c))
          else None
      | _ \<Rightarrow> None)"

definition sum_target :: "jsval option target" where
  "sum_target = \<lparr>fn = sum_fn, fn_length = 3\<rparr>"

text \<open>
  Decimal digits of a natural number, and of an integer.  \<open>ToString\<close> below applies
  \<open>show_int\<close> to safe integers only, which JavaScript prints in this form.
\<close>

definition digit :: "nat \<Rightarrow> char" where
  "digit d = ''0123456789'' ! d"

fun digits :: "nat \<Rightarrow> string" where
  "digits n = (if n < 10 then [digit n] else digits (n div 10) @ [digit (n mod 10)])"

definition show_int :: "int \<Rightarrow> string" where
  "show_int n = (if n < 0 then CHR ''-'' # digits (nat (- n)) else digits (nat n))"

text \<open>\<open>Array.prototype.join\<close> on strings already converted.\<close>

fun intercalate :: "string \<Rightarrow> string list \<Rightarrow> string" where
  "intercalate sep [] = []"
| "intercalate sep [s] = s"
| "intercalate sep (s # ss) = s @ sep @ intercalate sep ss"

text \<open>
  The conversion to string that a template literal applies to each substitution.  It
  throws a TypeError on a symbol.  An array is converted as by \<open>join(",")\<close>, where a hole,
  \<open>undefined\<close> and \<open>null\<close> give the empty string.  A number that is not a safe integer is
  outside the model (from \<open>10^21\<close> on JavaScript prints an exponent).
\<close>

fun ToString :: "jsval \<Rightarrow> error + string"
  and elements_strings :: "jsval option list \<Rightarrow> error + string list" where
  "ToString Undefined = Inr ''undefined''"
| "ToString Null = Inr ''null''"
| "ToString (Bool b) = Inr (if b then ''true'' else ''false'')"
| "ToString (Num n) = (if safe_integer n then Inr (show_int n) else Inl NotModelled)"
| "ToString (Str s) = Inr s"
| "ToString (Symbol n) = Inl TypeError"
| "ToString (Arr elements) =
     (case elements_strings elements of
        Inl e \<Rightarrow> Inl e
      | Inr ss \<Rightarrow> Inr (intercalate '','' ss))"
| "elements_strings [] = Inr []"
| "elements_strings (None # rest) =
     (case elements_strings rest of Inl e \<Rightarrow> Inl e | Inr ss \<Rightarrow> Inr ([] # ss))"
| "elements_strings (Some v # rest) =
     (case (if v = Undefined \<or> v = Null then Inr [] else ToString v) of
        Inl e \<Rightarrow> Inl e
      | Inr s \<Rightarrow> (case elements_strings rest of Inl e \<Rightarrow> Inl e | Inr ss \<Rightarrow> Inr (s # ss)))"

text \<open>
  \<open>join = (a, b, c) => `${a}_${b}_${c}`\<close>, falt_Polyfil.ts lines 159 to 161.  The
  substitutions are converted from left to right; the first one that throws ends the
  evaluation.
\<close>

definition join :: "jsval list \<Rightarrow> error + string" where
  "join args =
     (case ToString (param args 0) of
        Inl e \<Rightarrow> Inl e
      | Inr a \<Rightarrow>
          (case ToString (param args 1) of
             Inl e \<Rightarrow> Inl e
           | Inr b \<Rightarrow>
               (case ToString (param args 2) of
                  Inl e \<Rightarrow> Inl e
                | Inr c \<Rightarrow> Inr (a @ ''_'' @ b @ ''_'' @ c))))"

definition join_target :: "(error + string) target" where
  "join_target = \<lparr>fn = join, fn_length = 3\<rparr>"

section \<open>flat (src/falt_Polyfil.ts, lines 24 to 63)\<close>

text \<open>The \<open>depth\<close> parameter: an integer or \<open>Infinity\<close>.\<close>

datatype depth = Finite int | Infinity

text \<open>\<open>currentDepth > 0\<close>.\<close>

fun depth_positive :: "depth \<Rightarrow> bool" where
  "depth_positive (Finite n) = (n > 0)"
| "depth_positive Infinity = True"

text \<open>\<open>currentDepth === Infinity ? Infinity : currentDepth - 1\<close>.\<close>

fun depth_next :: "depth \<Rightarrow> depth" where
  "depth_next (Finite n) = Finite (n - 1)"
| "depth_next Infinity = Infinity"

text \<open>
  \<open>flattenHelper(currentArr, currentDepth)\<close>.  The first argument is what remains of
  \<open>currentArr\<close> from index \<open>i\<close> on; the loop moves one slot to the right at each round.  The
  helper writes to one variable only, the array \<open>result\<close> of \<open>flat\<close>, always at
  \<open>result.length\<close>: \<open>result\<close> is passed in and returned.
\<close>

function flattenHelper :: "jsval option list \<Rightarrow> depth \<Rightarrow> jsval list \<Rightarrow> jsval list" where
  "flattenHelper [] currentDepth result = result"
| "flattenHelper (None # rest) currentDepth result = flattenHelper rest currentDepth result"
| "flattenHelper (Some v # rest) currentDepth result =
     (case v of
        Arr inner \<Rightarrow>
          if depth_positive currentDepth
          then flattenHelper rest currentDepth
                 (flattenHelper inner (depth_next currentDepth) result)
          else flattenHelper rest currentDepth (result @ [v])
      | _ \<Rightarrow> flattenHelper rest currentDepth (result @ [v]))"
  by pat_completeness auto
termination
  by (relation "measure (\<lambda>(currentArr, currentDepth, result). size_list (size_option size) currentArr)")
     auto

definition flat :: "jsval option list \<Rightarrow> depth \<Rightarrow> jsval list" where
  "flat arr d = flattenHelper arr d []"

text \<open>The array built by lines 67 to 70 of the source, and the output its comment gives.\<close>

definition example_arr :: "jsval option list" where
  "example_arr =
     [Some (Num 1), Some (Num 2), None, None, Some Undefined,
      Some (Arr [Some (Num 3), Some (Num 4), None, None,
                 Some (Arr [Some (Num 5), Some (Num 6),
                            Some (Arr [Some (Num 7), Some (Num 8),
                                       Some (Arr [Some (Num 9), Some (Num 10)])])])])]"

text \<open>
  For stating what \<open>flat\<close> does with holes: the array without its holes, at every level that
  a flattening to the given depth descends into.  It follows the cases of \<open>flattenHelper\<close>
  and is not part of the source.
\<close>

function without_holes :: "jsval option list \<Rightarrow> depth \<Rightarrow> jsval option list" where
  "without_holes [] d = []"
| "without_holes (None # rest) d = without_holes rest d"
| "without_holes (Some v # rest) d =
     (case v of
        Arr inner \<Rightarrow>
          if depth_positive d
          then Some (Arr (without_holes inner (depth_next d))) # without_holes rest d
          else Some v # without_holes rest d
      | _ \<Rightarrow> Some v # without_holes rest d)"
  by pat_completeness auto
termination
  by (relation "measure (\<lambda>(arr, d). size_list (size_option size) arr)") auto

text \<open>Whether \<open>flattenHelper\<close> takes the recursive branch at a value: line 43 of the source.\<close>

definition descends :: "jsval \<Rightarrow> depth \<Rightarrow> bool" where
  "descends v d = (case v of Arr inner \<Rightarrow> depth_positive d | _ \<Rightarrow> False)"

section \<open>flat over a store of arrays\<close>

text \<open>
  In the source an array is an object and a nested array is a reference to another
  object.  Here a value is a primitive or the address of an array, and the store is the
  list of the arrays' slots, addressed by position.
\<close>

datatype sval =
    SUndefined
  | SNull
  | SBool bool
  | SNum int
  | SStr string
  | SSymbol nat
  | SRef nat

type_synonym store = "sval option list list"

text \<open>\<open>result[result.length] = value\<close>, the only assignment of the source.\<close>

definition push :: "nat \<Rightarrow> sval \<Rightarrow> store \<Rightarrow> store" where
  "push r v s = s[r := s ! r @ [Some v]]"

text \<open>
  \<open>flattenHelper(currentArr, currentDepth)\<close> from index \<open>i\<close> on, for \<open>currentArr\<close> and \<open>result\<close>
  given by their addresses.  The loop reads \<open>currentArr.length\<close> and \<open>currentArr[i]\<close> from
  the store at each round.  A store can hold an array that contains itself, on which the
  source does not return for the depth \<open>Infinity\<close>; each round of the loop and each call
  uses one unit of fuel, and \<open>None\<close> means that the fuel ran out.
\<close>

fun flattenHelper_store ::
  "nat \<Rightarrow> nat \<Rightarrow> nat \<Rightarrow> nat \<Rightarrow> depth \<Rightarrow> store \<Rightarrow> store option" where
  "flattenHelper_store 0 result currentArr i currentDepth s = None"
| "flattenHelper_store (Suc fuel) result currentArr i currentDepth s =
     (if i < length (s ! currentArr)
      then (case s ! currentArr ! i of
              None \<Rightarrow> flattenHelper_store fuel result currentArr (Suc i) currentDepth s
            | Some v \<Rightarrow>
                (case v of
                   SRef inner \<Rightarrow>
                     if depth_positive currentDepth
                     then (case flattenHelper_store fuel result inner 0
                                  (depth_next currentDepth) s of
                             None \<Rightarrow> None
                           | Some s1 \<Rightarrow>
                               flattenHelper_store fuel result currentArr (Suc i)
                                 currentDepth s1)
                     else flattenHelper_store fuel result currentArr (Suc i) currentDepth
                            (push result v s)
                 | _ \<Rightarrow>
                     flattenHelper_store fuel result currentArr (Suc i) currentDepth
                       (push result v s)))
      else Some s)"

text \<open>\<open>flat(arr, depth)\<close>: \<open>const result = []\<close> is a new array, whose address is returned.\<close>

definition flat_store :: "nat \<Rightarrow> nat \<Rightarrow> depth \<Rightarrow> store \<Rightarrow> (nat \<times> store) option" where
  "flat_store fuel arr d s =
     (let result = length s
      in case flattenHelper_store fuel result arr 0 d (s @ [[]]) of
           None \<Rightarrow> None
         | Some s' \<Rightarrow> Some (result, s'))"

text \<open>Whether \<open>flattenHelper\<close> takes the recursive branch at a value of the store.\<close>

definition enters :: "sval \<Rightarrow> depth \<Rightarrow> bool" where
  "enters v d = (case v of SRef inner \<Rightarrow> depth_positive d | _ \<Rightarrow> False)"

text \<open>
  For relating the store to the arrays as values: the store value \<open>sv\<close> stands for the
  value \<open>v\<close> in the store \<open>s\<close>, an address standing for the array that its slots, read from
  the store, stand for.  Only a store without cycles below \<open>sv\<close> represents a value.
\<close>

fun represents :: "store \<Rightarrow> jsval \<Rightarrow> sval \<Rightarrow> bool"
  and represents_slots :: "store \<Rightarrow> jsval option list \<Rightarrow> sval option list \<Rightarrow> bool" where
  "represents s Undefined sv = (sv = SUndefined)"
| "represents s Null sv = (sv = SNull)"
| "represents s (Bool b) sv = (sv = SBool b)"
| "represents s (Num n) sv = (sv = SNum n)"
| "represents s (Str x) sv = (sv = SStr x)"
| "represents s (Symbol n) sv = (sv = SSymbol n)"
| "represents s (Arr slots) sv =
     (case sv of
        SRef a \<Rightarrow> a < length s \<and> represents_slots s slots (s ! a)
      | _ \<Rightarrow> False)"
| "represents_slots s [] ss = (ss = [])"
| "represents_slots s (None # rest) ss =
     (case ss of None # srest \<Rightarrow> represents_slots s rest srest | _ \<Rightarrow> False)"
| "represents_slots s (Some v # rest) ss =
     (case ss of
        Some sv # srest \<Rightarrow> represents s v sv \<and> represents_slots s rest srest
      | _ \<Rightarrow> False)"

text \<open>
  A bound on the fuel that a flattening needs: one unit for each slot of the array and of
  its nested arrays, and one for each end of a loop.
\<close>

fun steps :: "jsval \<Rightarrow> nat" and steps_slots :: "jsval option list \<Rightarrow> nat" where
  "steps (Arr slots) = steps_slots slots"
| "steps Undefined = 0"
| "steps Null = 0"
| "steps (Bool b) = 0"
| "steps (Num n) = 0"
| "steps (Str x) = 0"
| "steps (Symbol n) = 0"
| "steps_slots [] = 1"
| "steps_slots (None # rest) = Suc (steps_slots rest)"
| "steps_slots (Some v # rest) = Suc (steps v + steps_slots rest)"

text \<open>A sparse array with nested sparse arrays, as a value and in a store at address 0.\<close>

definition sparse_tree :: "jsval option list" where
  "sparse_tree =
     [Some (Num 1), None,
      Some (Arr [Some (Num 2), None, Some Undefined,
                 Some (Arr [Some (Num 3), None, Some (Num 4)])])]"

definition sparse_store :: store where
  "sparse_store =
     [[Some (SNum 1), None, Some (SRef 1)],
      [Some (SNum 2), None, Some SUndefined, Some (SRef 2)],
      [Some (SNum 3), None, Some (SNum 4)]]"

section \<open>The curry with placeholders over a store of arrays\<close>

text \<open>
  The arrays of the source are objects: \<open>arg\<close> is shared by every call of the function that
  closes over it, and \<open>nextArg.shift()\<close> writes to an array.  Here the arrays live in a
  store, a list of array contents addressed by position; a new array takes the next free
  address.  Every rest parameter and every \<open>map\<close> makes a new array.
\<close>

type_synonym heap = "jsval list list"

definition alloc :: "jsval list \<Rightarrow> heap \<Rightarrow> nat \<times> heap" where
  "alloc vs h = (length h, h @ [vs])"

text \<open>\<open>Array.prototype.shift\<close> on the array at address \<open>n\<close>.\<close>

definition shift :: "nat \<Rightarrow> heap \<Rightarrow> jsval \<times> heap" where
  "shift n h = (case h ! n of [] \<Rightarrow> (Undefined, h) | v # vs \<Rightarrow> (v, h[n := vs]))"

text \<open>
  \<open>arg.map(callback)\<close> from index \<open>k\<close> on, for \<open>arg\<close> at address \<open>a\<close> and \<open>nextArg\<close> at
  address \<open>n\<close>.  \<open>map\<close> reads the length once (\<open>len\<close>) and each item when its turn comes.  An
  index that is no longer in the array is not passed to the callback and leaves a hole in
  the mapped array, which the spread of line 143 reads as \<open>undefined\<close>.
\<close>

function map_heap :: "nat \<Rightarrow> nat \<Rightarrow> nat \<Rightarrow> nat \<Rightarrow> heap \<Rightarrow> jsval list \<times> heap" where
  "map_heap a n len k h =
     (if k < len
      then (let (v, h1) =
                  (if k < length (h ! a)
                   then (let item = h ! a ! k
                         in if item = placeholder \<and> length (h ! n) \<noteq> 0
                            then shift n h
                            else (item, h))
                   else (Undefined, h));
                (resultArg, h2) = map_heap a n len (Suc k) h1
            in (v # resultArg, h2))
      else ([], h))"
  by pat_completeness auto
termination
  by (relation "measure (\<lambda>(a, n, len, k, h). len - k)") auto

text \<open>The function of line 120 is represented by the address of the \<open>arg\<close> it closes over.\<close>

datatype 'r outcome_heap = Result_heap 'r | Continuation_heap nat

text \<open>
  \<open>curried(...arg)\<close>: the rest parameter is a new array holding the values passed.  The
  array that \<open>slice\<close> makes for the validity test is dropped at once and gets no address.
\<close>

definition curried_heap :: "'r target \<Rightarrow> jsval list \<Rightarrow> heap \<Rightarrow> 'r outcome_heap \<times> heap" where
  "curried_heap t passed h =
     (let (a, h1) = alloc passed h
      in if isValid t (h1 ! a) then (Result_heap (fn t (h1 ! a)), h1)
         else (Continuation_heap a, h1))"

text \<open>
  A call of the function of line 120 whose \<open>arg\<close> is at address \<open>a\<close>: \<open>nextArg\<close> is a new
  array, \<open>resultArg\<close> is the new array that \<open>map\<close> returns, and \<open>curried\<close> is called with the
  elements of both.
\<close>

definition continuation_heap ::
  "'r target \<Rightarrow> nat \<Rightarrow> jsval list \<Rightarrow> heap \<Rightarrow> 'r outcome_heap \<times> heap" where
  "continuation_heap t a passed h =
     (let (n, h1) = alloc passed h;
          (mapped, h2) = map_heap a n (length (h1 ! a)) 0 h1;
          (r, h3) = alloc mapped h2
      in curried_heap t (h3 ! r @ h3 ! n) h3)"

text \<open>
  What the caller holds after a call: the target's result, or a function, described by
  the content of the array it closes over.
\<close>

fun observe :: "'r outcome_heap \<times> heap \<Rightarrow> 'r outcome" where
  "observe (Result_heap r, h) = Result r"
| "observe (Continuation_heap a, h) = Continuation (h ! a)"

section \<open>Properties of the merge\<close>

lemma map_shift_merge_step:
  "map_shift pending (drop i newArgs) =
     (fst (merge_step pending newArgs i), drop (snd (merge_step pending newArgs i)) newArgs)"
proof (induction pending arbitrary: i)
  case Nil
  show ?case by simp
next
  case (Cons slot pending)
  show ?case
  proof (cases "slot = placeholder \<and> i < length newArgs")
    case True
    then have hd_tl: "hd (drop i newArgs) = newArgs ! i" "tl (drop i newArgs) = drop (Suc i) newArgs"
      by (simp_all add: hd_drop_conv_nth drop_Suc tl_drop)
    from True Cons.IH [of "Suc i"] show ?thesis
      by (simp add: hd_tl split: prod.splits)
  next
    case False
    with Cons.IH [of i] show ?thesis
      by (auto split: prod.splits)
  qed
qed

lemma length_map_shift: "length (fst (map_shift pending nextArg)) = length pending"
  by (induction pending arbitrary: nextArg) (simp_all add: case_prod_beta)

lemma map_shift_keeps:
  "i < length pending \<Longrightarrow> pending ! i \<noteq> placeholder \<Longrightarrow>
     fst (map_shift pending nextArg) ! i = pending ! i"
proof (induction pending arbitrary: i nextArg)
  case Nil
  then show ?case by simp
next
  case (Cons slot pending)
  show ?case
  proof (cases i)
    case 0
    with Cons.prems show ?thesis by (simp add: case_prod_beta)
  next
    case (Suc j)
    with Cons.prems have "j < length pending" "pending ! j \<noteq> placeholder" by simp_all
    then have "fst (map_shift pending n) ! j = pending ! j" for n
      by (rule Cons.IH)
    with Suc show ?thesis by (simp add: case_prod_beta)
  qed
qed


section \<open>Readiness\<close>

lemma slice_take: "0 \<le> n \<Longrightarrow> slice xs 0 n = take (nat n) xs"
  by (simp add: slice_def Let_def min_def)

lemma slice_negative: "n < 0 \<Longrightarrow> slice xs 0 n = take (length xs - nat (- n)) xs"
  by (auto simp add: slice_def Let_def max_def intro!: arg_cong2 [where f = take])

lemma isValid_window:
  assumes "0 \<le> fn_length t"
  shows "isValid t combined \<longleftrightarrow>
     (int (length combined) \<ge> fn_length t \<and>
      (\<forall>i < nat (fn_length t). combined ! i \<noteq> placeholder))"
proof (cases "int (length combined) \<ge> fn_length t")
  case True
  then have len: "nat (fn_length t) \<le> length combined" by simp
  have "placeholder \<in> set (take (nat (fn_length t)) combined) \<longleftrightarrow>
      (\<exists>i < nat (fn_length t). combined ! i = placeholder)"
    using len by (auto simp add: in_set_conv_nth)
  with True assms show ?thesis
    by (auto simp add: isValid_def includes_js_def slice_take)
next
  case False
  then show ?thesis by (simp add: isValid_def)
qed

lemma isValid_full:
  "int (length args) = fn_length t \<Longrightarrow> placeholder \<notin> set args \<Longrightarrow> isValid t args"
  by (auto simp add: isValid_def includes_js_def slice_def Let_def dest: in_set_takeD)

section \<open>Calls without placeholders\<close>

lemma map_shift_no_placeholder:
  "placeholder \<notin> set pending \<Longrightarrow> map_shift pending nextArg = (pending, nextArg)"
  by (induction pending) auto

lemma continuation_no_placeholder:
  "placeholder \<notin> set pending \<Longrightarrow>
     continuation t pending nextArg = curried t (pending @ nextArg)"
  by (simp add: continuation_def map_shift_no_placeholder)

lemma curried_short: "int (length arg) < fn_length t \<Longrightarrow> curried t arg = Continuation arg"
  by (simp add: curried_def isValid_def)

lemma calls_no_placeholder:
  "placeholder \<notin> set p \<Longrightarrow> \<forall>g \<in> set later. g \<noteq> [] \<Longrightarrow>
   placeholder \<notin> set (concat later) \<Longrightarrow>
   int (length p + length (concat later)) = fn_length t \<Longrightarrow>
   calls (continuation t) (curried t p) later = Some (Result (fn t (p @ concat later)))"
proof (induction later arbitrary: p)
  case Nil
  then show ?case by (simp add: curried_def isValid_full)
next
  case (Cons g gs)
  from Cons.prems have "g \<noteq> []" by simp
  then have one: "int (length g) \<ge> 1" by (cases g) simp_all
  have "int (length p) + int (length g) + int (length (concat gs)) = fn_length t"
    using Cons.prems(4) by simp
  with one have short: "int (length p) < fn_length t" by linarith
  have "calls (continuation t) (curried t p) (g # gs) =
      calls (continuation t) (curried t (p @ g)) gs"
    using Cons.prems(1) by (simp add: curried_short [OF short] continuation_no_placeholder)
  also have "\<dots> = Some (Result (fn t ((p @ g) @ concat gs)))"
    using Cons.prems by (intro Cons.IH) auto
  finally show ?case by simp
qed

lemma calls_simple_groups:
  "\<forall>g \<in> set later. g \<noteq> [] \<Longrightarrow>
   int (length p + length (concat later)) = fn_length t \<Longrightarrow>
   calls (continuation_simple t) (curried_simple t p) later =
     Some (Result (fn t (p @ concat later)))"
proof (induction later arbitrary: p)
  case Nil
  then show ?case by (simp add: curried_simple_def)
next
  case (Cons g gs)
  from Cons.prems have "g \<noteq> []" by simp
  then have one: "int (length g) \<ge> 1" by (cases g) simp_all
  have "int (length p) + int (length g) + int (length (concat gs)) = fn_length t"
    using Cons.prems(2) by simp
  with one have short: "int (length p) < fn_length t" by linarith
  then have "calls (continuation_simple t) (curried_simple t p) (g # gs) =
      calls (continuation_simple t) (curried_simple t (p @ g)) gs"
    by (simp add: curried_simple_def continuation_simple_def)
  also have "\<dots> = Some (Result (fn t ((p @ g) @ concat gs)))"
    using Cons.prems by (intro Cons.IH) auto
  finally show ?case by simp
qed

lemma sum_123: "fn sum_target [Num 1, Num 2, Num 3] = Some (Num 6)"
  by (simp add: sum_target_def sum_fn_def param_def safe_integer_def)

lemma join_12345: "join [Num 1, Num 2, Num 3, Num 4, Num 5] = Inr ''1_2_3''"
  by (simp add: join_def param_def show_int_def digit_def safe_integer_def)

lemma join_no_arguments: "join [] = Inr ''undefined_undefined_undefined''"
  by (simp add: join_def param_def)

section \<open>Calls without arguments, and negative lengths\<close>

lemma map_shift_Nil: "map_shift pending [] = (pending, [])"
  by (induction pending) simp_all

lemma continuation_Nil: "continuation t pending [] = curried t pending"
  by (simp add: continuation_def map_shift_Nil)

lemma curried_Nil:
  "curried t [] = (if fn_length t \<le> 0 then Result (fn t []) else Continuation [])"
  by (simp add: curried_def isValid_def includes_js_def slice_def)

lemma curried_negative:
  "fn_length t < 0 \<Longrightarrow>
     curried t args =
       (if placeholder \<in> set (take (length args - nat (- fn_length t)) args)
        then Continuation args else Result (fn t args))"
  by (simp add: curried_def isValid_def includes_js_def slice_negative)

section \<open>What a continuation holds\<close>

lemma curried_Continuation:
  "curried t arg = Continuation p \<Longrightarrow> p = arg \<and> \<not> isValid t p"
  by (auto simp add: curried_def split: if_splits)

lemma continuation_Continuation:
  "continuation t pending nextArg = Continuation p \<Longrightarrow> \<not> isValid t p"
  by (auto simp add: continuation_def split: prod.splits dest: curried_Continuation)

lemma curried_simple_Continuation:
  "curried_simple t arg = Continuation p \<Longrightarrow> p = arg \<and> int (length p) < fn_length t"
  by (auto simp add: curried_simple_def split: if_splits)

lemma calls_Continuation:
  assumes "calls k out later = Some (Continuation p)"
    and "\<And>q. out = Continuation q \<Longrightarrow> P q"
    and "\<And>arg nextArg q. k arg nextArg = Continuation q \<Longrightarrow> P q"
  shows "P p"
  using assms
proof (induction k out later rule: calls.induct)
  case (1 k out)
  then show ?case by simp
next
  case (2 k arg nextArg later)
  show ?case
  proof (rule "2.IH")
    show "calls k (k arg nextArg) later = Some (Continuation p)"
      using "2.prems"(1) by simp
    show "P q" if "k arg nextArg = Continuation q" for q
      using that by (rule "2.prems"(3))
    show "P q" if "k arg' nextArg' = Continuation q" for arg' nextArg' q
      using that by (rule "2.prems"(3))
  qed
next
  case (3 k r nextArg later)
  then show ?case by simp
qed

lemma chain_Continuation: "chain t first later = Some (Continuation p) \<Longrightarrow> \<not> isValid t p"
  unfolding chain_def
  by (erule calls_Continuation) (auto dest: curried_Continuation continuation_Continuation)

lemma chain_simple_Continuation:
  "chain_simple t first later = Some (Continuation p) \<Longrightarrow> int (length p) < fn_length t"
  unfolding chain_simple_def
  by (erule calls_Continuation)
     (auto simp add: continuation_simple_def dest: curried_simple_Continuation)

section \<open>flat without its accumulator\<close>

lemma flattenHelper_push:
  "\<not> descends v d \<Longrightarrow>
     flattenHelper (Some v # rest) d result = flattenHelper rest d (result @ [v])"
  by (cases v) (simp_all add: descends_def)

lemma flattenHelper_descend:
  "depth_positive d \<Longrightarrow>
     flattenHelper (Some (Arr inner) # rest) d result =
       flattenHelper rest d (flattenHelper inner (depth_next d) result)"
  by simp

declare flattenHelper.simps(3) [simp del]

lemma descends_Arr: "descends v d \<Longrightarrow> \<exists>inner. v = Arr inner \<and> depth_positive d"
  by (cases v) (simp_all add: descends_def)

lemma flattenHelper_result:
  "flattenHelper currentArr d result = result @ flattenHelper currentArr d []"
proof (induction "size_list (size_option size) currentArr" arbitrary: currentArr d result
    rule: less_induct)
  case less
  show ?case
  proof (cases currentArr)
    case Nil
    then show ?thesis by simp
  next
    case (Cons slot rest)
    have rest: "flattenHelper rest d r = r @ flattenHelper rest d []" for r
      using less [of rest d r] Cons by simp
    show ?thesis
    proof (cases slot)
      case None
      with Cons rest [of result] show ?thesis by simp
    next
      case (Some v)
      show ?thesis
      proof (cases "descends v d")
        case False
        with Cons Some rest [of "result @ [v]"] rest [of "[v]"] show ?thesis
          by (simp add: flattenHelper_push)
      next
        case True
        then obtain inner where v: "v = Arr inner" and pos: "depth_positive d"
          using descends_Arr by blast
        have inner: "flattenHelper inner (depth_next d) result =
            result @ flattenHelper inner (depth_next d) []"
          using less [of inner "depth_next d" result] Cons Some v by simp
        from Cons Some v pos inner
          rest [of "result @ flattenHelper inner (depth_next d) []"]
          rest [of "flattenHelper inner (depth_next d) []"]
        show ?thesis
          by (simp add: flattenHelper_descend)
      qed
    qed
  qed
qed

lemma flat_Cons_None: "flat (None # rest) d = flat rest d"
  by (simp add: flat_def)

lemma flat_Cons_Some:
  "flat (Some v # rest) d =
     (case v of
        Arr inner \<Rightarrow> if depth_positive d then flat inner (depth_next d) @ flat rest d
                     else v # flat rest d
      | _ \<Rightarrow> v # flat rest d)"
  using flattenHelper_result
      [of rest d "flattenHelper (case v of Arr inner \<Rightarrow> inner | _ \<Rightarrow> []) (depth_next d) []"]
    flattenHelper_result [of rest d "[v]"]
  by (cases v) (simp_all add: flat_def flattenHelper.simps(3))

lemma flat_append: "flat (xs @ ys) d = flat xs d @ flat ys d"
proof (induction xs)
  case Nil
  show ?case by (simp add: flat_def)
next
  case (Cons slot xs)
  show ?case
  proof (cases slot)
    case None
    with Cons show ?thesis by (simp add: flat_Cons_None)
  next
    case (Some v)
    with Cons show ?thesis by (cases v) (simp_all add: flat_Cons_Some)
  qed
qed

lemma flat_without_holes: "flat (without_holes arr d) d = flat arr d"
proof (induction arr d rule: without_holes.induct)
  case (1 d)
  show ?case by simp
next
  case (2 rest d)
  then show ?case by (simp add: flat_Cons_None)
next
  case (3 v rest d)
  then show ?case by (cases v) (simp_all add: flat_Cons_Some)
qed

lemma without_holes_no_hole: "None \<notin> set (without_holes arr d)"
proof (induction arr d rule: without_holes.induct)
  case (3 v rest d)
  then show ?case by (cases v) simp_all
qed simp_all

lemma flat_example:
  "flat example_arr Infinity =
     [Num 1, Num 2, Undefined, Num 3, Num 4, Num 5, Num 6, Num 7, Num 8, Num 9, Num 10]"
  by (simp add: flat_def example_arr_def flattenHelper.simps(3))

section \<open>The store model and the list model agree\<close>

declare map_heap.simps [simp del]

lemma shift_nonempty:
  "h ! n \<noteq> [] \<Longrightarrow> shift n h = (hd (h ! n), h[n := tl (h ! n)])"
  by (cases "h ! n") (simp_all add: shift_def)

lemma map_shift_Cons_fill:
  "nextArg \<noteq> [] \<Longrightarrow> map_shift (placeholder # items) nextArg =
     (hd nextArg # fst (map_shift items (tl nextArg)), snd (map_shift items (tl nextArg)))"
  by (simp add: case_prod_beta)

lemma map_shift_Cons_keep:
  "item \<noteq> placeholder \<or> nextArg = [] \<Longrightarrow> map_shift (item # items) nextArg =
     (item # fst (map_shift items nextArg), snd (map_shift items nextArg))"
  by (auto simp add: case_prod_beta)

lemma map_heap_map_shift:
  "a \<noteq> n \<Longrightarrow> a < length h \<Longrightarrow> n < length h \<Longrightarrow> len = length (h ! a) \<Longrightarrow> k \<le> len \<Longrightarrow>
     map_heap a n len k h =
       (fst (map_shift (drop k (h ! a)) (h ! n)),
        h[n := snd (map_shift (drop k (h ! a)) (h ! n))])"
proof (induction "len - k" arbitrary: k h)
  case 0
  then have "k = len" by simp
  then have "map_heap a n len k h = ([], h)"
    by (subst map_heap.simps) simp
  with 0 \<open>k = len\<close> show ?case by simp
next
  case (Suc m)
  then have k: "k < len" "k < length (h ! a)" by simp_all
  let ?item = "h ! a ! k"
  have drop: "drop k (h ! a) = ?item # drop (Suc k) (h ! a)"
    using k by (simp add: Cons_nth_drop_Suc)
  show ?case
  proof (cases "?item = placeholder \<and> h ! n \<noteq> []")
    case True
    let ?h1 = "h[n := tl (h ! n)]"
    have h1: "?h1 ! a = h ! a" "?h1 ! n = tl (h ! n)" "length ?h1 = length h"
      using Suc.prems by simp_all
    have "m = len - Suc k" using Suc.hyps(2) by simp
    then have IH: "map_heap a n len (Suc k) ?h1 =
       (fst (map_shift (drop (Suc k) (h ! a)) (tl (h ! n))),
        h[n := snd (map_shift (drop (Suc k) (h ! a)) (tl (h ! n)))])"
      using Suc.hyps(1) [of "Suc k" ?h1] Suc.prems k h1 by simp
    have "map_heap a n len k h =
        (hd (h ! n) # fst (map_shift (drop (Suc k) (h ! a)) (tl (h ! n))),
         h[n := snd (map_shift (drop (Suc k) (h ! a)) (tl (h ! n)))])"
      using True k by (simp add: map_heap.simps [of a n len k h] shift_nonempty IH)
    with True show ?thesis
      by (simp add: drop map_shift_Cons_fill del: map_shift.simps)
  next
    case False
    have "m = len - Suc k" using Suc.hyps(2) by simp
    then have IH: "map_heap a n len (Suc k) h =
       (fst (map_shift (drop (Suc k) (h ! a)) (h ! n)),
        h[n := snd (map_shift (drop (Suc k) (h ! a)) (h ! n))])"
      using Suc.hyps(1) [of "Suc k" h] Suc.prems k by simp
    have "map_heap a n len k h =
        (?item # fst (map_shift (drop (Suc k) (h ! a)) (h ! n)),
         h[n := snd (map_shift (drop (Suc k) (h ! a)) (h ! n))])"
      using False k by (auto simp add: map_heap.simps [of a n len k h] IH)
    with False show ?thesis
      by (simp add: drop map_shift_Cons_keep del: map_shift.simps)
  qed
qed


lemma continuation_heap_eq:
  assumes "a < length h"
  shows "continuation_heap t a passed h =
     (let mapped = fst (map_shift (h ! a) passed);
          rest = snd (map_shift (h ! a) passed);
          h' = h @ [rest, mapped, mapped @ rest]
      in (if isValid t (mapped @ rest) then Result_heap (fn t (mapped @ rest))
          else Continuation_heap (length h + 2), h'))"
proof -
  let ?h1 = "h @ [passed]"
  let ?n = "length h"
  have "map_heap a ?n (length (?h1 ! a)) 0 ?h1 =
       (fst (map_shift (drop 0 (?h1 ! a)) (?h1 ! ?n)),
        ?h1[?n := snd (map_shift (drop 0 (?h1 ! a)) (?h1 ! ?n))])"
    using assms by (intro map_heap_map_shift) simp_all
  then have m: "map_heap a ?n (length (h ! a)) 0 ?h1 =
       (fst (map_shift (h ! a) passed), h @ [snd (map_shift (h ! a) passed)])"
    using assms by (simp add: nth_append)
  have al: "alloc passed h = (?n, ?h1)" by (simp add: alloc_def)
  have a1: "?h1 ! a = h ! a" using assms by (simp add: nth_append)
  let ?mapped = "fst (map_shift (h ! a) passed)"
  let ?rest = "snd (map_shift (h ! a) passed)"
  let ?h2 = "h @ [?rest]"
  let ?h3 = "h @ [?rest, ?mapped]"
  have al2: "alloc ?mapped ?h2 = (Suc ?n, ?h3)" by (simp add: alloc_def)
  have r: "?h3 ! Suc ?n = ?mapped" "?h3 ! ?n = ?rest"
    by (simp_all add: nth_append)
  have step: "continuation_heap t a passed h = curried_heap t (?mapped @ ?rest) ?h3"
    unfolding continuation_heap_def al Let_def prod.case a1 m al2 r ..
  show ?thesis
    unfolding step by (simp add: curried_heap_def alloc_def Let_def nth_append)
qed

lemma continuation_eq:
  "continuation t arg nextArg =
     curried t (fst (map_shift arg nextArg) @ snd (map_shift arg nextArg))"
  by (simp add: continuation_def case_prod_beta)

lemma continuation_heap_store:
  "a < length h \<Longrightarrow>
     snd (continuation_heap t a passed h) =
       h @ [snd (map_shift (h ! a) passed), fst (map_shift (h ! a) passed),
            fst (map_shift (h ! a) passed) @ snd (map_shift (h ! a) passed)]"
  by (simp only: continuation_heap_eq Let_def snd_conv)

lemma continuation_heap_outcome:
  "a < length h \<Longrightarrow>
     fst (continuation_heap t a passed h) =
       (if isValid t (fst (map_shift (h ! a) passed) @ snd (map_shift (h ! a) passed))
        then Result_heap (fn t (fst (map_shift (h ! a) passed) @ snd (map_shift (h ! a) passed)))
        else Continuation_heap (length h + 2))"
  by (simp only: continuation_heap_eq Let_def fst_conv)


lemma observe_continuation_heap:
  assumes "a < length h"
  shows "observe (continuation_heap t a passed h) = continuation t (h ! a) passed"
proof -
  let ?M = "fst (map_shift (h ! a) passed)"
  let ?R = "snd (map_shift (h ! a) passed)"
  have st: "snd (continuation_heap t a passed h) = h @ [?R, ?M, ?M @ ?R]"
    using assms by (rule continuation_heap_store)
  have nth: "(h @ [?R, ?M, ?M @ ?R]) ! (length h + 2) = ?M @ ?R"
    by (simp add: nth_append)
  show ?thesis
  proof (cases "isValid t (?M @ ?R)")
    case True
    then have "fst (continuation_heap t a passed h) = Result_heap (fn t (?M @ ?R))"
      using continuation_heap_outcome [OF assms, of t passed] by simp
    then have "observe (continuation_heap t a passed h) = Result (fn t (?M @ ?R))"
      by (metis observe.simps(1) prod.collapse)
    with True show ?thesis by (simp add: continuation_eq curried_def)
  next
    case False
    then have "fst (continuation_heap t a passed h) = Continuation_heap (length h + 2)"
      using continuation_heap_outcome [OF assms, of t passed] by simp
    then have "observe (continuation_heap t a passed h) =
        Continuation (snd (continuation_heap t a passed h) ! (length h + 2))"
      by (metis observe.simps(2) prod.collapse)
    with False show ?thesis by (simp only: st nth continuation_eq curried_def if_False)
  qed
qed

lemma continuation_heap_frame:
  assumes "a < length h" and "continuation_heap t a passed h = (out, h')"
  shows "length h' = length h + 3 \<and> take (length h) h' = h \<and>
     (case out of Result_heap r \<Rightarrow> True | Continuation_heap b \<Rightarrow> b < length h')"
proof -
  from assms(2) have h': "h' = snd (continuation_heap t a passed h)"
    and out: "out = fst (continuation_heap t a passed h)" by simp_all
  have l: "length h' = length h + 3" and tk: "take (length h) h' = h"
    unfolding h' continuation_heap_store [OF assms(1)] by simp_all
  have "case out of Result_heap r \<Rightarrow> True | Continuation_heap b \<Rightarrow> b < length h'"
    unfolding out continuation_heap_outcome [OF assms(1)] l by simp
  with l tk show ?thesis by blast
qed

lemma take_nth_eq: "take n h' = h \<Longrightarrow> a < length h \<Longrightarrow> h' ! a = h ! a"
proof -
  assume t: "take n h' = h" and a: "a < length h"
  from t a have "a < n" by auto
  then have "take n h' ! a = h' ! a" by simp
  with t show ?thesis by simp
qed

lemma observe_frame:
  "take (length h) h' = h \<Longrightarrow>
   (case out of Result_heap r \<Rightarrow> True | Continuation_heap b \<Rightarrow> b < length h) \<Longrightarrow>
   observe (out, h') = observe (out, h)"
proof (cases out)
  case (Result_heap r)
  then show ?thesis by simp
next
  case (Continuation_heap b)
  assume "take (length h) h' = h"
    and "case out of Result_heap r \<Rightarrow> True | Continuation_heap b \<Rightarrow> b < length h"
  with Continuation_heap have "h' ! b = h ! b"
    using take_nth_eq [of "length h" h' h b] by simp
  with Continuation_heap show ?thesis by simp
qed

text \<open>Two calls of one continuation, evaluated on a store that holds its pending list.\<close>

lemma first_call:
  "continuation_heap join_target 0 [Num 1] [[placeholder, Num 3]] =
     (Continuation_heap 3, [[placeholder, Num 3], [], [Num 1, Num 3], [Num 1, Num 3]])"
  by code_simp

lemma second_call:
  "continuation_heap join_target 0 [Num 2, Num 5]
      [[placeholder, Num 3], [], [Num 1, Num 3], [Num 1, Num 3]] =
     (Result_heap (Inr ''2_3_5''),
      [[placeholder, Num 3], [], [Num 1, Num 3], [Num 1, Num 3],
       [Num 5], [Num 2, Num 3], [Num 2, Num 3, Num 5]])"
  by code_simp

section \<open>Continuations of the example target\<close>

lemma curried_join_pending:
  "curried join_target [Num 1, placeholder, Num 3] = Continuation [Num 1, placeholder, Num 3]"
  by (simp add: curried_def isValid_def includes_js_def slice_def join_target_def
      placeholder_def)

lemma continuation_join_pending:
  "continuation join_target [placeholder, placeholder, Num 3] [Num 1, placeholder] =
     Continuation [Num 1, placeholder, Num 3]"
  by (simp add: continuation_def curried_def isValid_def includes_js_def slice_def
      join_target_def placeholder_def)

lemma chain_join_pending:
  "chain join_target [placeholder, placeholder, Num 3] [[Num 1, placeholder]] =
     Some (Continuation [Num 1, placeholder, Num 3])"
  by (simp add: chain_def continuation_def curried_def isValid_def includes_js_def slice_def
      join_target_def placeholder_def)

lemma curried_simple_join_pending:
  "curried_simple join_target [Num 1, Num 2] = Continuation [Num 1, Num 2]"
  by (simp add: curried_simple_def join_target_def)

lemma continuation_simple_join_pending:
  "continuation_simple join_target [Num 1] [Num 2] = Continuation [Num 1, Num 2]"
  by (simp add: continuation_simple_def curried_simple_def join_target_def)

lemma chain_simple_join_pending:
  "chain_simple join_target [Num 1] [[Num 2]] = Some (Continuation [Num 1, Num 2])"
  by (simp add: chain_simple_def continuation_simple_def curried_simple_def join_target_def)

section \<open>flat with infinite depth leaves no array\<close>

lemma flat_Infinity_no_array: "Arr inner \<notin> set (flat arr Infinity)"
proof (induction "size_list (size_option size) arr" arbitrary: arr rule: less_induct)
  case less
  show ?case
  proof (cases arr)
    case Nil
    then show ?thesis by (simp add: flat_def)
  next
    case (Cons slot rest)
    have rest: "Arr inner \<notin> set (flat rest Infinity)"
      using less [of rest] Cons by simp
    show ?thesis
    proof (cases slot)
      case None
      with Cons rest show ?thesis by (simp add: flat_Cons_None)
    next
      case (Some v)
      show ?thesis
      proof (cases v)
        case (Arr nested)
        have "Arr inner \<notin> set (flat nested Infinity)"
          using less [of nested] Cons Some Arr by simp
        with Cons Some Arr rest show ?thesis by (simp add: flat_Cons_Some)
      qed (use Cons Some rest in \<open>simp_all add: flat_Cons_Some\<close>)
    qed
  qed
qed

section \<open>flat writes to its result only\<close>

lemma flattenHelper_store_done:
  "\<not> i < length (s ! a) \<Longrightarrow> flattenHelper_store (Suc fuel) r a i d s = Some s"
  by simp

lemma flattenHelper_store_hole:
  "i < length (s ! a) \<Longrightarrow> s ! a ! i = None \<Longrightarrow>
     flattenHelper_store (Suc fuel) r a i d s = flattenHelper_store fuel r a (Suc i) d s"
  by simp

lemma flattenHelper_store_descend:
  "i < length (s ! a) \<Longrightarrow> s ! a ! i = Some (SRef inner) \<Longrightarrow> depth_positive d \<Longrightarrow>
     flattenHelper_store (Suc fuel) r a i d s =
       (case flattenHelper_store fuel r inner 0 (depth_next d) s of
          None \<Rightarrow> None
        | Some s1 \<Rightarrow> flattenHelper_store fuel r a (Suc i) d s1)"
  by simp

lemma flattenHelper_store_push:
  "i < length (s ! a) \<Longrightarrow> s ! a ! i = Some v \<Longrightarrow> \<not> enters v d \<Longrightarrow>
     flattenHelper_store (Suc fuel) r a i d s =
       flattenHelper_store fuel r a (Suc i) d (push r v s)"
  by (cases v) (simp_all add: enters_def)

lemma enters_SRef: "enters v d \<Longrightarrow> \<exists>inner. v = SRef inner \<and> depth_positive d"
  by (cases v) (simp_all add: enters_def)

declare flattenHelper_store.simps(2) [simp del]

lemma push_frame: "length (push r v s) = length s \<and> (\<forall>x. x \<noteq> r \<longrightarrow> push r v s ! x = s ! x)"
  by (simp add: push_def)

lemma flattenHelper_store_frame:
  "flattenHelper_store fuel r a i d s = Some s' \<Longrightarrow>
     length s' = length s \<and> (\<forall>x. x \<noteq> r \<longrightarrow> s' ! x = s ! x)"
proof (induction fuel arbitrary: a i d s s')
  case 0
  then show ?case by simp
next
  case (Suc fuel)
  show ?case
  proof (cases "i < length (s ! a)")
    case False
    with Suc.prems show ?thesis by (simp add: flattenHelper_store_done)
  next
    case inside: True
    show ?thesis
    proof (cases "s ! a ! i")
      case None
      with inside Suc.prems have "flattenHelper_store fuel r a (Suc i) d s = Some s'"
        by (simp add: flattenHelper_store_hole)
      then show ?thesis by (rule Suc.IH)
    next
      case (Some v)
      show ?thesis
      proof (cases "enters v d")
        case False
        with inside Some Suc.prems
        have "flattenHelper_store fuel r a (Suc i) d (push r v s) = Some s'"
          by (simp add: flattenHelper_store_push)
        then have "length s' = length (push r v s) \<and> (\<forall>x. x \<noteq> r \<longrightarrow> s' ! x = push r v s ! x)"
          by (rule Suc.IH)
        with push_frame [of r v s] show ?thesis by simp
      next
        case True
        then obtain inner where v: "v = SRef inner" and pos: "depth_positive d"
          using enters_SRef by blast
        from inside Some v pos Suc.prems
        have run: "(case flattenHelper_store fuel r inner 0 (depth_next d) s of
            None \<Rightarrow> None
          | Some s1 \<Rightarrow> flattenHelper_store fuel r a (Suc i) d s1) = Some s'"
          by (simp add: flattenHelper_store_descend)
        then obtain s1 where
          first: "flattenHelper_store fuel r inner 0 (depth_next d) s = Some s1"
          and second: "flattenHelper_store fuel r a (Suc i) d s1 = Some s'"
          by (cases "flattenHelper_store fuel r inner 0 (depth_next d) s") simp_all
        from Suc.IH [OF first] Suc.IH [OF second] show ?thesis by simp
      qed
    qed
  qed
qed

lemma flat_store_frame:
  assumes "flat_store fuel a d s = Some (r, s')"
  shows "r = length s \<and> length s' = Suc (length s) \<and> take (length s) s' = s"
proof -
  from assms obtain run: "flattenHelper_store fuel (length s) a 0 d (s @ [[]]) = Some s'"
    and r: "r = length s"
    by (cases "flattenHelper_store fuel (length s) a 0 d (s @ [[]])")
       (simp_all add: flat_store_def)
  from flattenHelper_store_frame [OF run]
  have len: "length s' = Suc (length s)"
    and same: "\<forall>x. x \<noteq> length s \<longrightarrow> s' ! x = (s @ [[]]) ! x"
    by simp_all
  have "take (length s) s' = s"
  proof (rule nth_equalityI)
    show "length (take (length s) s') = length s" using len by simp
    show "take (length s) s' ! x = s ! x" if "x < length (take (length s) s')" for x
    proof -
      from that have x: "x < length s" by simp
      then have "s' ! x = (s @ [[]]) ! x" using same by simp
      with x show ?thesis by (simp add: nth_append)
    qed
  qed
  with r len show ?thesis by simp
qed

section \<open>flat over the store computes flat\<close>

lemma represents_slots_None:
  "represents_slots s (None # rest) ss \<Longrightarrow>
     \<exists>srest. ss = None # srest \<and> represents_slots s rest srest"
  by (cases ss) (auto split: option.splits)

lemma represents_slots_Some:
  "represents_slots s (Some v # rest) ss \<Longrightarrow>
     \<exists>sv srest. ss = Some sv # srest \<and> represents s v sv \<and> represents_slots s rest srest"
  by (cases ss) (auto split: option.splits)

lemma drop_eq_Cons:
  "drop i xs = x # rest \<Longrightarrow> i < length xs \<and> xs ! i = x \<and> drop (Suc i) xs = rest"
proof -
  assume d: "drop i xs = x # rest"
  then have i: "i < length xs" by (cases "i < length xs") simp_all
  then have "drop i xs = xs ! i # drop (Suc i) xs" by (simp add: Cons_nth_drop_Suc)
  with d i show ?thesis by simp
qed

lemma represents_descends:
  "represents s v sv \<Longrightarrow> descends v d \<Longrightarrow>
     \<exists>inner b. v = Arr inner \<and> sv = SRef b \<and> b < length s \<and>
       represents_slots s inner (s ! b) \<and> depth_positive d"
  by (cases v; cases sv) (simp_all add: descends_def)

lemma represents_not_descends:
  "represents s v sv \<Longrightarrow> \<not> descends v d \<Longrightarrow> \<not> enters sv d"
  by (cases v; cases sv) (simp_all add: descends_def enters_def)

lemma flat_push: "\<not> descends v d \<Longrightarrow> flat (Some v # rest) d = v # flat rest d"
  by (cases v) (simp_all add: flat_Cons_Some descends_def)

lemma flat_descend:
  "depth_positive d \<Longrightarrow>
     flat (Some (Arr inner) # rest) d = flat inner (depth_next d) @ flat rest d"
  by (simp add: flat_Cons_Some)

lemma push_result: "push (length s) v (s @ [res]) = s @ [res @ [Some v]]"
  by (simp add: push_def)

lemma steps_slots_positive: "0 < steps_slots slots"
  by (cases slots rule: steps_slots.cases) simp_all

lemma flattenHelper_store_represents:
  "a < length s \<Longrightarrow> represents_slots s slots (drop i (s ! a)) \<Longrightarrow> steps_slots slots \<le> fuel \<Longrightarrow>
     \<exists>out. list_all2 (represents s) (flat slots d) out \<and>
       (\<forall>res. flattenHelper_store fuel (length s) a i d (s @ [res]) =
          Some (s @ [res @ map Some out]))"
proof (induction "size_list (size_option size) slots" arbitrary: slots a i d fuel
    rule: less_induct)
  case less
  from less.prems(3) steps_slots_positive [of slots] obtain f where fuel: "fuel = Suc f"
    by (cases fuel) simp_all
  have at: "(s @ [res]) ! a = s ! a" for res
    using less.prems(1) by (simp add: nth_append)
  show ?case
  proof (cases slots)
    case Nil
    with less.prems(2) have "\<not> i < length (s ! a)" by simp
    then have "flattenHelper_store fuel (length s) a i d (s @ [res]) = Some (s @ [res @ map Some []])"
      for res
      unfolding fuel by (simp add: flattenHelper_store_done at)
    moreover have "list_all2 (represents s) (flat slots d) []"
      using Nil by (simp add: flat_def)
    ultimately show ?thesis by blast
  next
    case (Cons slot rest)
    show ?thesis
    proof (cases slot)
      case None
      from less.prems(2) Cons None obtain srest where
        split: "drop i (s ! a) = None # srest" and rest: "represents_slots s rest srest"
        using represents_slots_None by blast
      have here: "i < length (s ! a)" "s ! a ! i = None" "drop (Suc i) (s ! a) = srest"
        using drop_eq_Cons [OF split] by simp_all
      have "\<exists>out. list_all2 (represents s) (flat rest d) out \<and>
          (\<forall>res. flattenHelper_store f (length s) a (Suc i) d (s @ [res]) =
             Some (s @ [res @ map Some out]))"
      proof (rule less.hyps)
        show "size_list (size_option size) rest < size_list (size_option size) slots"
          using Cons by simp
        show "a < length s" by (rule less.prems(1))
        show "represents_slots s rest (drop (Suc i) (s ! a))" using rest here(3) by simp
        show "steps_slots rest \<le> f" using less.prems(3) Cons None fuel by simp
      qed
      then obtain out where out: "list_all2 (represents s) (flat rest d) out"
        and run: "\<And>res. flattenHelper_store f (length s) a (Suc i) d (s @ [res]) =
          Some (s @ [res @ map Some out])"
        by blast
      have "flattenHelper_store fuel (length s) a i d (s @ [res]) =
          Some (s @ [res @ map Some out])" for res
        unfolding fuel using here run [of res]
        by (simp add: flattenHelper_store_hole at)
      moreover have "list_all2 (represents s) (flat slots d) out"
        using out Cons None by (simp add: flat_Cons_None)
      ultimately show ?thesis by blast
    next
      case (Some v)
      from less.prems(2) Cons Some obtain sv srest where
        split: "drop i (s ! a) = Some sv # srest" and v: "represents s v sv"
        and rest: "represents_slots s rest srest"
        using represents_slots_Some by blast
      have here: "i < length (s ! a)" "s ! a ! i = Some sv" "drop (Suc i) (s ! a) = srest"
        using drop_eq_Cons [OF split] by simp_all
      have "\<exists>out. list_all2 (represents s) (flat rest d) out \<and>
          (\<forall>res. flattenHelper_store f (length s) a (Suc i) d (s @ [res]) =
             Some (s @ [res @ map Some out]))"
      proof (rule less.hyps)
        show "size_list (size_option size) rest < size_list (size_option size) slots"
          using Cons by simp
        show "a < length s" by (rule less.prems(1))
        show "represents_slots s rest (drop (Suc i) (s ! a))" using rest here(3) by simp
        show "steps_slots rest \<le> f" using less.prems(3) Cons Some fuel by simp
      qed
      then obtain out2 where out2: "list_all2 (represents s) (flat rest d) out2"
        and run2: "\<And>res. flattenHelper_store f (length s) a (Suc i) d (s @ [res]) =
          Some (s @ [res @ map Some out2])"
        by blast
      show ?thesis
      proof (cases "descends v d")
        case False
        then have stay: "\<not> enters sv d" using v represents_not_descends by blast
        have "flattenHelper_store fuel (length s) a i d (s @ [res]) =
            Some (s @ [res @ map Some (sv # out2)])" for res
          unfolding fuel using here stay run2 [of "res @ [Some sv]"]
          by (simp add: flattenHelper_store_push at push_result)
        moreover have "list_all2 (represents s) (flat slots d) (sv # out2)"
          using out2 v Cons Some False by (simp add: flat_push)
        ultimately show ?thesis by blast
      next
        case True
        with v obtain inner b where arr: "v = Arr inner" "sv = SRef b" "b < length s"
          "represents_slots s inner (s ! b)" "depth_positive d"
          using represents_descends by blast
        have "\<exists>out. list_all2 (represents s) (flat inner (depth_next d)) out \<and>
            (\<forall>res. flattenHelper_store f (length s) b 0 (depth_next d) (s @ [res]) =
               Some (s @ [res @ map Some out]))"
        proof (rule less.hyps)
          show "size_list (size_option size) inner < size_list (size_option size) slots"
            using Cons Some arr(1) by simp
          show "b < length s" by (rule arr(3))
          show "represents_slots s inner (drop 0 (s ! b))" using arr(4) by simp
          show "steps_slots inner \<le> f" using less.prems(3) Cons Some fuel arr(1) by simp
        qed
        then obtain out1 where
          out1: "list_all2 (represents s) (flat inner (depth_next d)) out1"
          and run1: "\<And>res. flattenHelper_store f (length s) b 0 (depth_next d) (s @ [res]) =
            Some (s @ [res @ map Some out1])"
          by blast
        have "flattenHelper_store fuel (length s) a i d (s @ [res]) =
            Some (s @ [res @ map Some (out1 @ out2)])" for res
          unfolding fuel using here arr(2,5) run1 [of res] run2 [of "res @ map Some out1"]
          by (simp add: flattenHelper_store_descend at)
        moreover have "list_all2 (represents s) (flat slots d) (out1 @ out2)"
          using out1 out2 Cons Some arr(1,5) by (simp add: flat_descend list_all2_appendI)
        ultimately show ?thesis by blast
      qed
    qed
  qed
qed

lemma represents_append:
  "represents s v sv \<Longrightarrow> represents (s @ t) v sv"
  "represents_slots s slots ss \<Longrightarrow> represents_slots (s @ t) slots ss"
proof (induction s v sv and s slots ss rule: represents_represents_slots.induct)
  case (7 s slots sv)
  then show ?case by (cases sv) (simp_all add: nth_append)
next
  case (9 s rest ss)
  then show ?case by (auto split: list.splits option.splits)
next
  case (10 s v rest ss)
  then show ?case by (auto split: list.splits option.splits)
qed simp_all

lemma represents_slots_dense:
  "list_all2 (represents s) vs svs \<Longrightarrow> represents_slots s (map Some vs) (map Some svs)"
  by (induction vs svs rule: list_all2_induct) simp_all

lemma flat_store_represents:
  assumes "a < length s" and "represents_slots s arr (s ! a)" and "steps_slots arr \<le> fuel"
  shows "\<exists>s'. flat_store fuel a d s = Some (length s, s') \<and> take (length s) s' = s \<and>
     represents_slots s' (map Some (flat arr d)) (s' ! length s) \<and>
     represents_slots s' arr (s' ! a)"
proof -
  from assms(2) have "represents_slots s arr (drop 0 (s ! a))" by simp
  from flattenHelper_store_represents [OF assms(1) this assms(3), of d]
  obtain out where out: "list_all2 (represents s) (flat arr d) out"
    and run: "flattenHelper_store fuel (length s) a 0 d (s @ [[]]) = Some (s @ [[] @ map Some out])"
    by blast
  let ?s' = "s @ [map Some out]"
  have r: "flat_store fuel a d s = Some (length s, ?s')"
    using run by (simp add: flat_store_def)
  have "represents_slots s (map Some (flat arr d)) (map Some out)"
    using out by (rule represents_slots_dense)
  then have res: "represents_slots ?s' (map Some (flat arr d)) (?s' ! length s)"
    by (simp add: represents_append(2))
  have inp: "represents_slots ?s' arr (?s' ! a)"
    using assms(1,2) by (simp add: represents_append(2) nth_append)
  from r res inp show ?thesis by simp
qed

lemma sparse_represented: "represents_slots sparse_store sparse_tree (sparse_store ! 0)"
  by (simp add: sparse_store_def sparse_tree_def)

lemma sparse_steps: "steps_slots sparse_tree \<le> 20"
  by (simp add: sparse_tree_def)

lemma sparse_run:
  "flat_store 20 0 (Finite 1) sparse_store =
     Some (3, sparse_store @ [[Some (SNum 1), Some (SNum 2), Some SUndefined, Some (SRef 2)]])"
  by code_simp

lemma sparse_flat:
  "flat sparse_tree (Finite 1) = [Num 1, Num 2, Undefined, Arr [Some (Num 3), None, Some (Num 4)]]"
  by (simp add: sparse_tree_def flat_def flattenHelper.simps(3))

section \<open>The claims\<close>

text \<open>
  C1.  Merge rule and placeholder fill order.  The \<open>map\<close> of the source computes the merge
  step as the specification words it: walking \<open>pending\<close> from the left with a cursor into
  \<open>newArgs\<close> that starts at 0, a placeholder slot takes the element at the cursor, whatever
  that element is (also the placeholder token itself), and the cursor advances; every other
  slot is unchanged and the filled list is as long as \<open>pending\<close>; what the cursor has
  not consumed is appended.  For pending
  \<open>[_, _, 3, 4]\<close> with arity 3, the call \<open>(1, _)\<close> returns a continuation whose pending list
  is \<open>[1, _, 3, 4]\<close>.
\<close>

theorem merge_rule:
  "map_shift pending newArgs =
      (fst (merge_step pending newArgs 0), drop (snd (merge_step pending newArgs 0)) newArgs)
   \<and> continuation t pending newArgs =
      curried t (fst (merge_step pending newArgs 0) @
                 drop (snd (merge_step pending newArgs 0)) newArgs)
   \<and> length (fst (map_shift pending newArgs)) = length pending
   \<and> (\<forall>i < length pending. pending ! i \<noteq> placeholder \<longrightarrow>
         fst (map_shift pending newArgs) ! i = pending ! i)
   \<and> continuation \<lparr>fn = f, fn_length = 3\<rparr>
        [placeholder, placeholder, Num 3, Num 4] [Num 1, placeholder]
       = Continuation [Num 1, placeholder, Num 3, Num 4]"
proof -
  have a: "map_shift pending newArgs =
      (fst (merge_step pending newArgs 0), drop (snd (merge_step pending newArgs 0)) newArgs)"
    using map_shift_merge_step [of pending 0 newArgs] by simp
  have b: "continuation t pending newArgs =
      curried t (fst (merge_step pending newArgs 0) @
                 drop (snd (merge_step pending newArgs 0)) newArgs)"
    by (simp add: continuation_def a)
  have c: "continuation \<lparr>fn = f, fn_length = 3\<rparr>
        [placeholder, placeholder, Num 3, Num 4] [Num 1, placeholder]
       = Continuation [Num 1, placeholder, Num 3, Num 4]"
    by (simp add: continuation_def curried_def isValid_def includes_js_def slice_def
        placeholder_def)
  have d: "\<forall>i < length pending. pending ! i \<noteq> placeholder \<longrightarrow>
         fst (map_shift pending newArgs) ! i = pending ! i"
    by (simp add: map_shift_keeps)
  from a b c d length_map_shift [of pending newArgs] show ?thesis by blast
qed

theorem merge_rule_witness:
  "(2::nat) < length [placeholder, placeholder, Num 3, Num 4]
   \<and> [placeholder, placeholder, Num 3, Num 4] ! 2 \<noteq> placeholder
   \<and> fst (map_shift [placeholder, placeholder, Num 3, Num 4] [Num 1, placeholder]) ! 2 = Num 3
   \<and> map_shift [placeholder, placeholder, Num 3, Num 4] [Num 1, placeholder] =
       ([Num 1, placeholder, Num 3, Num 4], [])"
proof -
  have i: "(2::nat) < length [placeholder, placeholder, Num 3, Num 4]" by simp
  have slot: "[placeholder, placeholder, Num 3, Num 4] ! 2 \<noteq> placeholder"
    by (simp add: placeholder_def)
  have slot_value: "[placeholder, placeholder, Num 3, Num 4] ! 2 = Num 3" by simp
  have cursor: "merge_step [placeholder, placeholder, Num 3, Num 4] [Num 1, placeholder] 0 =
      ([Num 1, placeholder, Num 3, Num 4], 2)"
    by (simp add: placeholder_def)
  from merge_rule [of "[placeholder, placeholder, Num 3, Num 4]" "[Num 1, placeholder]"] i slot
  have "fst (map_shift [placeholder, placeholder, Num 3, Num 4] [Num 1, placeholder]) ! 2 =
      [placeholder, placeholder, Num 3, Num 4] ! 2"
    by blast
  then have kept:
    "fst (map_shift [placeholder, placeholder, Num 3, Num 4] [Num 1, placeholder]) ! 2 = Num 3"
    unfolding slot_value .
  from merge_rule [of "[placeholder, placeholder, Num 3, Num 4]" "[Num 1, placeholder]"]
  have "map_shift [placeholder, placeholder, Num 3, Num 4] [Num 1, placeholder] =
      (fst (merge_step [placeholder, placeholder, Num 3, Num 4] [Num 1, placeholder] 0),
       drop (snd (merge_step [placeholder, placeholder, Num 3, Num 4] [Num 1, placeholder] 0))
         [Num 1, placeholder])"
    by blast
  then have merged: "map_shift [placeholder, placeholder, Num 3, Num 4] [Num 1, placeholder] =
       ([Num 1, placeholder, Num 3, Num 4], [])"
    unfolding cursor by simp
  from i slot kept merged show ?thesis by blast
qed

text \<open>
  C2.  Readiness checks only the arity window.  For an arity that is not negative, a
  combined argument list is valid exactly when it has at least arity elements and none of
  its first arity elements is the placeholder; \<open>curried\<close> invokes the target on the whole
  list exactly then, and returns a continuation otherwise.  With arity 2 the list
  \<open>[5, 6, PLACEHOLDER]\<close> is ready and the target receives \<open>(5, 6, PLACEHOLDER)\<close>.
\<close>

theorem readiness_window:
  "0 \<le> fn_length t \<Longrightarrow>
     (isValid t combined \<longleftrightarrow>
        (int (length combined) \<ge> fn_length t \<and>
         (\<forall>i < nat (fn_length t). combined ! i \<noteq> placeholder)))
     \<and> curried t combined =
         (if isValid t combined then Result (fn t combined) else Continuation combined)
     \<and> curried \<lparr>fn = f, fn_length = 2\<rparr> [Num 5, Num 6, placeholder]
         = Result (f [Num 5, Num 6, placeholder])"
proof -
  assume h: "0 \<le> fn_length t"
  have c: "curried \<lparr>fn = f, fn_length = 2\<rparr> [Num 5, Num 6, placeholder]
      = Result (f [Num 5, Num 6, placeholder])"
    by (simp add: curried_def isValid_def includes_js_def slice_def placeholder_def)
  from isValid_window [OF h] c show ?thesis
    by (simp add: curried_def)
qed

theorem readiness_window_witness:
  "0 \<le> fn_length \<lparr>fn = join, fn_length = 2\<rparr>
   \<and> isValid \<lparr>fn = join, fn_length = 2\<rparr> [Num 5, placeholder, Num 6] = False
   \<and> isValid \<lparr>fn = join, fn_length = 2\<rparr> [Num 5, Num 6, placeholder] = True
   \<and> curried \<lparr>fn = join, fn_length = 2\<rparr> [Num 5, placeholder, Num 6]
       = Continuation [Num 5, placeholder, Num 6]"
proof -
  have h: "0 \<le> fn_length \<lparr>fn = join, fn_length = 2\<rparr>" by simp
  have blocked: "\<not> (\<forall>i < nat (fn_length \<lparr>fn = join, fn_length = 2\<rparr>).
      [Num 5, placeholder, Num 6] ! i \<noteq> placeholder)"
    by (auto simp add: less_2_cases_iff)
  have free: "\<forall>i < nat (fn_length \<lparr>fn = join, fn_length = 2\<rparr>).
      [Num 5, Num 6, placeholder] ! i \<noteq> placeholder"
    by (auto simp add: less_2_cases_iff placeholder_def)
  have len: "fn_length \<lparr>fn = join, fn_length = 2\<rparr> \<le> int (length [Num 5, Num 6, placeholder])"
    by simp
  from readiness_window [OF h, of "[Num 5, placeholder, Num 6]" join] blocked
  have no: "isValid \<lparr>fn = join, fn_length = 2\<rparr> [Num 5, placeholder, Num 6] = False"
    by blast
  from readiness_window [OF h, of "[Num 5, placeholder, Num 6]" join]
  have "curried \<lparr>fn = join, fn_length = 2\<rparr> [Num 5, placeholder, Num 6] =
      (if isValid \<lparr>fn = join, fn_length = 2\<rparr> [Num 5, placeholder, Num 6]
       then Result (fn \<lparr>fn = join, fn_length = 2\<rparr> [Num 5, placeholder, Num 6])
       else Continuation [Num 5, placeholder, Num 6])"
    by blast
  with no have cont: "curried \<lparr>fn = join, fn_length = 2\<rparr> [Num 5, placeholder, Num 6]
       = Continuation [Num 5, placeholder, Num 6]"
    by simp
  from readiness_window [OF h, of "[Num 5, Num 6, placeholder]" join] free len
  have yes: "isValid \<lparr>fn = join, fn_length = 2\<rparr> [Num 5, Num 6, placeholder] = True"
    by blast
  from h no yes cont show ?thesis by blast
qed

text \<open>
  C3.  Full-application equivalence.  When exactly as many arguments as the target's arity
  are passed in one call and none of them is the placeholder, the call invokes the target
  on them and returns its result; this holds for the curry with placeholders and for the
  curry without.
\<close>

theorem full_application:
  "int (length args) = fn_length t \<Longrightarrow> placeholder \<notin> set args \<Longrightarrow>
     curried t args = Result (fn t args) \<and> curried_simple t args = Result (fn t args)"
  by (simp add: curried_def curried_simple_def isValid_full)

theorem full_application_witness:
  "int (length [Num 1, Num 2, Num 3]) = fn_length sum_target
   \<and> placeholder \<notin> set [Num 1, Num 2, Num 3]
   \<and> curried sum_target [Num 1, Num 2, Num 3] = Result (Some (Num 6))
   \<and> curried_simple sum_target [Num 1, Num 2, Num 3] = Result (Some (Num 6))"
proof -
  have h1: "int (length [Num 1, Num 2, Num 3]) = fn_length sum_target"
    by (simp add: sum_target_def)
  have h2: "placeholder \<notin> set [Num 1, Num 2, Num 3]"
    by (simp add: placeholder_def)
  have v: "fn sum_target [Num 1, Num 2, Num 3] = Some (Num 6)"
    by (simp add: sum_target_def sum_fn_def param_def safe_integer_def)
  show ?thesis
    using h1 h2 full_application [OF h1 h2] by (simp add: v)
qed


text \<open>
  C4.  Split-application equivalence.  When the arguments are passed in one or more
  successive calls, each call passing at least one argument, none of them the placeholder,
  and their total number is the target's arity, the last call returns the target's result
  on all the arguments in order, however they are grouped; this holds for the curry with
  placeholders and for the curry without.  For \<open>sum\<close>, \<open>curriedSum(1,2,3)\<close>,
  \<open>curriedSum(1,2)(3)\<close> and \<open>curriedSum(1)(2)(3)\<close> all give 6.
\<close>

theorem split_application:
  "\<forall>g \<in> set (first # later). g \<noteq> [] \<Longrightarrow>
   placeholder \<notin> set (concat (first # later)) \<Longrightarrow>
   int (length (concat (first # later))) = fn_length t \<Longrightarrow>
     chain t first later = Some (Result (fn t (concat (first # later))))
     \<and> chain_simple t first later = Some (Result (fn t (concat (first # later))))
     \<and> chain_simple sum_target [Num 1, Num 2, Num 3] [] = Some (Result (Some (Num 6)))
     \<and> chain_simple sum_target [Num 1, Num 2] [[Num 3]] = Some (Result (Some (Num 6)))
     \<and> chain_simple sum_target [Num 1] [[Num 2], [Num 3]] = Some (Result (Some (Num 6)))"
proof -
  assume groups: "\<forall>g \<in> set (first # later). g \<noteq> []"
    and plain: "placeholder \<notin> set (concat (first # later))"
    and total: "int (length (concat (first # later))) = fn_length t"
  have with_placeholders: "chain t first later = Some (Result (fn t (concat (first # later))))"
    using groups plain total calls_no_placeholder [of first later t]
    by (simp add: chain_def)
  have without: "chain_simple t first later = Some (Result (fn t (concat (first # later))))"
    using groups total calls_simple_groups [of later first t]
    by (simp add: chain_simple_def)
  have examples:
    "chain_simple sum_target [Num 1, Num 2, Num 3] [] = Some (Result (Some (Num 6)))"
    "chain_simple sum_target [Num 1, Num 2] [[Num 3]] = Some (Result (Some (Num 6)))"
    "chain_simple sum_target [Num 1] [[Num 2], [Num 3]] = Some (Result (Some (Num 6)))"
    by (simp_all add: chain_simple_def curried_simple_def continuation_simple_def
        sum_target_def sum_fn_def param_def safe_integer_def)
  from with_placeholders without examples show ?thesis by blast
qed

theorem split_application_witness:
  "[Num 1] \<noteq> [] \<and> [Num 2, Num 3] \<noteq> []
   \<and> placeholder \<notin> set (concat ([Num 1] # [[Num 2, Num 3]]))
   \<and> int (length (concat ([Num 1] # [[Num 2, Num 3]]))) = fn_length sum_target
   \<and> chain sum_target [Num 1] [[Num 2, Num 3]] = Some (Result (Some (Num 6)))
   \<and> chain_simple sum_target [Num 1] [[Num 2, Num 3]] = Some (Result (Some (Num 6)))"
proof -
  have groups: "\<forall>g \<in> set ([Num 1] # [[Num 2, Num 3]]). g \<noteq> []" by simp
  have plain: "placeholder \<notin> set (concat ([Num 1] # [[Num 2, Num 3]]))"
    by (simp add: placeholder_def)
  have total: "int (length (concat ([Num 1] # [[Num 2, Num 3]]))) = fn_length sum_target"
    by (simp add: sum_target_def)
  have args: "concat ([Num 1] # [[Num 2, Num 3]]) = [Num 1, Num 2, Num 3]" by simp
  from split_application [OF groups plain total]
  have "chain sum_target [Num 1] [[Num 2, Num 3]] = Some (Result (Some (Num 6)))"
    and "chain_simple sum_target [Num 1] [[Num 2, Num 3]] = Some (Result (Some (Num 6)))"
    unfolding args sum_123 by blast+
  with plain total show ?thesis by simp
qed

text \<open>
  C5.  End-to-end placeholder scenario.  For \<open>join\<close> of arity 3, the chain
  \<open>curriedJoin(_, _, 3, 4)(1, _)(2, 5)\<close> returns a continuation at its first call and at its
  second call, and at its third call the string \<open>1_2_3\<close>, the result of \<open>join\<close> on
  \<open>(1, 2, 3, 4, 5)\<close>.
\<close>

theorem placeholder_scenario:
  "chain join_target [placeholder, placeholder, Num 3, Num 4] []
     = Some (Continuation [placeholder, placeholder, Num 3, Num 4])
   \<and> chain join_target [placeholder, placeholder, Num 3, Num 4] [[Num 1, placeholder]]
     = Some (Continuation [Num 1, placeholder, Num 3, Num 4])
   \<and> chain join_target [placeholder, placeholder, Num 3, Num 4]
        [[Num 1, placeholder], [Num 2, Num 5]]
     = Some (Result (join [Num 1, Num 2, Num 3, Num 4, Num 5]))
   \<and> join [Num 1, Num 2, Num 3, Num 4, Num 5] = Inr ''1_2_3''"
  by (simp add: chain_def curried_def continuation_def isValid_def includes_js_def slice_def
      placeholder_def join_target_def join_12345)

text \<open>
  C6, as the code has it.  Construction performs no validation: \<open>curry\<close> never fails and
  returns the entry point for every target, also for one whose length is negative.  With a
  negative length \<open>-k\<close>, a call invokes the target on all its arguments unless one of the
  arguments before the last \<open>k\<close> is the placeholder, and returns a continuation otherwise.
\<close>

theorem construction_never_fails:
  "curry_fn t = Inr (curried t)
   \<and> (fn_length t < 0 \<longrightarrow>
        curried t args =
          (if placeholder \<in> set (take (length args - nat (- fn_length t)) args)
           then Continuation args else Result (fn t args)))"
  by (simp add: curry_fn_def curried_negative)

theorem construction_never_fails_witness:
  "fn_length \<lparr>fn = join, fn_length = - 1\<rparr> < 0
   \<and> curry_fn \<lparr>fn = join, fn_length = - 1\<rparr> = Inr (curried \<lparr>fn = join, fn_length = - 1\<rparr>)
   \<and> curried \<lparr>fn = join, fn_length = - 1\<rparr> [Num 1, placeholder] = Result (join [Num 1, placeholder])
   \<and> curried \<lparr>fn = join, fn_length = - 1\<rparr> [placeholder, Num 1] = Continuation [placeholder, Num 1]"
proof -
  have neg: "fn_length \<lparr>fn = join, fn_length = - 1\<rparr> < 0" by simp
  show ?thesis
    using neg construction_never_fails [of "\<lparr>fn = join, fn_length = - 1\<rparr>" "[Num 1, placeholder]"]
      construction_never_fails [of "\<lparr>fn = join, fn_length = - 1\<rparr>" "[placeholder, Num 1]"]
    by (simp add: placeholder_def)
qed

text \<open>
  C6, as the specification states it, fails: for a target whose length is \<open>-1\<close>
  construction does not signal an error, and the entry point it returns applies the target
  and returns continuations.
\<close>

theorem negative_arity_accepted:
  "\<not> isl (curry_fn \<lparr>fn = join, fn_length = - 1\<rparr>)
   \<and> projr (curry_fn \<lparr>fn = join, fn_length = - 1\<rparr>) [Num 1, Num 2, Num 3]
       = Result (Inr ''1_2_3'')
   \<and> projr (curry_fn \<lparr>fn = join, fn_length = - 1\<rparr>) [placeholder, Num 1]
       = Continuation [placeholder, Num 1]"
  by (simp add: curry_fn_def curried_def isValid_def includes_js_def slice_def placeholder_def
      join_def param_def show_int_def digit_def safe_integer_def)

text \<open>
  C7.  A call without arguments is an identity.  Calling a continuation with no arguments
  gives what \<open>curried\<close> gives on its pending list: a continuation with the same pending
  list when that list is not ready, and the target's result only if it was ready already.
  At the entry point, a call without arguments returns a continuation with the empty
  pending list when the arity is positive, and invokes the target at once when the arity
  is zero.  The curry without placeholders behaves the same.
\<close>

theorem zero_argument_call:
  "continuation t pending [] = curried t pending
   \<and> (\<not> isValid t pending \<longrightarrow> continuation t pending [] = Continuation pending)
   \<and> (isValid t pending \<longrightarrow> continuation t pending [] = Result (fn t pending))
   \<and> (0 < fn_length t \<longrightarrow> curried t [] = Continuation [])
   \<and> (fn_length t = 0 \<longrightarrow> curried t [] = Result (fn t []))
   \<and> continuation_simple t pending [] = curried_simple t pending
   \<and> (0 < fn_length t \<longrightarrow> curried_simple t [] = Continuation [])
   \<and> (fn_length t = 0 \<longrightarrow> curried_simple t [] = Result (fn t []))"
  by (simp add: continuation_Nil curried_Nil continuation_simple_def)
     (simp add: curried_def curried_simple_def)

theorem zero_argument_call_witness:
  "\<not> isValid join_target [Num 1]
   \<and> continuation join_target [Num 1] [] = Continuation [Num 1]
   \<and> 0 < fn_length join_target
   \<and> curried join_target [] = Continuation []
   \<and> curried_simple join_target [] = Continuation []
   \<and> fn_length \<lparr>fn = join, fn_length = 0\<rparr> = 0
   \<and> isValid \<lparr>fn = join, fn_length = 0\<rparr> []
   \<and> continuation \<lparr>fn = join, fn_length = 0\<rparr> [] [] = Result (Inr ''undefined_undefined_undefined'')
   \<and> curried \<lparr>fn = join, fn_length = 0\<rparr> [] = Result (Inr ''undefined_undefined_undefined'')
   \<and> curried_simple \<lparr>fn = join, fn_length = 0\<rparr> [] = Result (Inr ''undefined_undefined_undefined'')"
proof -
  have pending: "\<not> isValid join_target [Num 1]"
    by (simp add: isValid_def join_target_def)
  have positive: "0 < fn_length join_target" by (simp add: join_target_def)
  have zero: "fn_length \<lparr>fn = join, fn_length = 0\<rparr> = 0" by simp
  have ready: "isValid \<lparr>fn = join, fn_length = 0\<rparr> []"
    by (simp add: isValid_def includes_js_def slice_def)
  have result: "fn \<lparr>fn = join, fn_length = 0\<rparr> [] = Inr ''undefined_undefined_undefined''"
    by (simp add: join_no_arguments)
  from zero_argument_call [of join_target "[Num 1]"] pending positive
  have kept: "continuation join_target [Num 1] [] = Continuation [Num 1]"
    and entry: "curried join_target [] = Continuation []"
    and entry_simple: "curried_simple join_target [] = Continuation []"
    by blast+
  from zero_argument_call [of "\<lparr>fn = join, fn_length = 0\<rparr>" "[]"] zero ready
  have "continuation \<lparr>fn = join, fn_length = 0\<rparr> [] [] = Result (fn \<lparr>fn = join, fn_length = 0\<rparr> [])"
    and "curried \<lparr>fn = join, fn_length = 0\<rparr> [] = Result (fn \<lparr>fn = join, fn_length = 0\<rparr> [])"
    and "curried_simple \<lparr>fn = join, fn_length = 0\<rparr> [] = Result (fn \<lparr>fn = join, fn_length = 0\<rparr> [])"
    by blast+
  then have invoked:
    "continuation \<lparr>fn = join, fn_length = 0\<rparr> [] [] = Result (Inr ''undefined_undefined_undefined'')"
    "curried \<lparr>fn = join, fn_length = 0\<rparr> [] = Result (Inr ''undefined_undefined_undefined'')"
    "curried_simple \<lparr>fn = join, fn_length = 0\<rparr> [] = Result (Inr ''undefined_undefined_undefined'')"
    unfolding result by blast+
  from pending kept positive entry entry_simple zero ready invoked show ?thesis
    by blast
qed


text \<open>
  C8.  Continuation immutability and call independence, over the store of arrays.  A call
  of a continuation leaves every array that existed before the call as it was, the
  continuation's own pending list among them; so calling the continuation with \<open>X\<close> and
  then with \<open>Y\<close> gives, for \<open>Y\<close>, what calling it with \<open>Y\<close> alone gives, namely what the
  merge rule gives from the pending list and \<open>Y\<close>; and the second call leaves what the
  first call returned as it was.
\<close>

theorem call_independence:
  assumes "c < length h" and "continuation_heap t c X h = (out1, h1)"
    and "continuation_heap t c Y h1 = (out2, h2)"
  shows "take (length h) h1 = h \<and> h1 ! c = h ! c \<and> h2 ! c = h ! c
     \<and> observe (out2, h2) = observe (continuation_heap t c Y h)
     \<and> observe (out2, h2) = continuation t (h ! c) Y
     \<and> observe (out1, h2) = observe (out1, h1)
     \<and> observe (out1, h1) = continuation t (h ! c) X"
proof -
  from continuation_heap_frame [OF assms(1,2)]
  have f1: "length h1 = length h + 3" "take (length h) h1 = h"
    "case out1 of Result_heap r \<Rightarrow> True | Continuation_heap b \<Rightarrow> b < length h1"
    by simp_all
  have c1: "c < length h1" "h1 ! c = h ! c"
    using assms(1) f1(1) take_nth_eq [OF f1(2) assms(1)] by simp_all
  from continuation_heap_frame [OF c1(1) assms(3)]
  have f2: "take (length h1) h2 = h1" by simp
  then have c2: "h2 ! c = h1 ! c" using c1(1) by (rule take_nth_eq)
  have o2: "observe (out2, h2) = continuation t (h ! c) Y"
    using observe_continuation_heap [OF c1(1), of t Y] assms(3) c1(2) by simp
  have o1: "observe (out1, h1) = continuation t (h ! c) X"
    using observe_continuation_heap [OF assms(1), of t X] assms(2) by simp
  have o12: "observe (out1, h2) = observe (out1, h1)"
    using f2 f1(3) by (rule observe_frame)
  from f1(2) c1(2) c2 o2 o1 o12 observe_continuation_heap [OF assms(1), of t Y]
  show ?thesis by simp
qed


theorem call_independence_witness:
  "0 < length [[placeholder, Num 3]]
   \<and> continuation_heap join_target 0 [Num 1] [[placeholder, Num 3]] =
       (Continuation_heap 3, [[placeholder, Num 3], [], [Num 1, Num 3], [Num 1, Num 3]])
   \<and> continuation_heap join_target 0 [Num 2, Num 5]
        [[placeholder, Num 3], [], [Num 1, Num 3], [Num 1, Num 3]] =
       (Result_heap (Inr ''2_3_5''),
        [[placeholder, Num 3], [], [Num 1, Num 3], [Num 1, Num 3],
         [Num 5], [Num 2, Num 3], [Num 2, Num 3, Num 5]])
   \<and> observe (continuation_heap join_target 0 [Num 2, Num 5] [[placeholder, Num 3]]) =
       Result (Inr ''2_3_5'')
   \<and> continuation join_target [placeholder, Num 3] [Num 2, Num 5] = Result (Inr ''2_3_5'')
   \<and> continuation join_target [placeholder, Num 3] [Num 1] = Continuation [Num 1, Num 3]"
proof -
  have c: "0 < length [[placeholder, Num 3]]" by simp
  have nth: "[[placeholder, Num 3]] ! 0 = [placeholder, Num 3]" by simp
  have o1: "observe (Continuation_heap 3,
      [[placeholder, Num 3], [], [Num 1, Num 3], [Num 1, Num 3]]) = Continuation [Num 1, Num 3]"
    by (simp add: numeral_3_eq_3)
  have o2: "observe (Result_heap (Inr ''2_3_5''),
        [[placeholder, Num 3], [], [Num 1, Num 3], [Num 1, Num 3],
         [Num 5], [Num 2, Num 3], [Num 2, Num 3, Num 5]]) = Result (Inr ''2_3_5'')"
    by simp
  from call_independence [OF c first_call second_call]
  have "observe (continuation_heap join_target 0 [Num 2, Num 5] [[placeholder, Num 3]]) =
       Result (Inr ''2_3_5'')"
    and "continuation join_target [placeholder, Num 3] [Num 2, Num 5] = Result (Inr ''2_3_5'')"
    and "continuation join_target [placeholder, Num 3] [Num 1] = Continuation [Num 1, Num 3]"
    unfolding nth o1 o2 by metis+
  with c first_call second_call show ?thesis by blast
qed

text \<open>
  C9.  Every continuation holds a pending list that is not ready.  Whether it comes from
  the entry point, from a call of a continuation or from a chain of calls, the pending
  list of a returned continuation fails the validity test; for an arity that is not
  negative this means that it is shorter than the arity or that one of its first arity
  slots is the placeholder.  A call returns the target's result exactly when its combined
  list is valid, and a continuation holding that list otherwise, so the two outcomes
  exclude each other.  For the curry without placeholders the pending list of a
  continuation is shorter than the arity.
\<close>

theorem continuation_not_ready:
  "(curried t arg = Continuation p \<longrightarrow> p = arg \<and> \<not> isValid t p)
   \<and> (continuation t pending nextArg = Continuation p \<longrightarrow> \<not> isValid t p)
   \<and> (chain t first later = Some (Continuation p) \<longrightarrow> \<not> isValid t p)
   \<and> (0 \<le> fn_length t \<and> \<not> isValid t p \<longrightarrow>
        int (length p) < fn_length t \<or> (\<exists>i < nat (fn_length t). p ! i = placeholder))
   \<and> ((\<exists>r. curried t arg = Result r) \<longleftrightarrow> isValid t arg)
   \<and> (curried_simple t arg = Continuation p \<longrightarrow> p = arg \<and> int (length p) < fn_length t)
   \<and> (continuation_simple t pending nextArg = Continuation p \<longrightarrow>
        int (length p) < fn_length t)
   \<and> (chain_simple t first later = Some (Continuation p) \<longrightarrow> int (length p) < fn_length t)
   \<and> ((\<exists>r. curried_simple t arg = Result r) \<longleftrightarrow> fn_length t \<le> int (length arg))"
proof -
  have w: "0 \<le> fn_length t \<and> \<not> isValid t p \<longrightarrow>
        int (length p) < fn_length t \<or> (\<exists>i < nat (fn_length t). p ! i = placeholder)"
    using isValid_window [of t p] by auto
  have e: "(\<exists>r. curried t arg = Result r) \<longleftrightarrow> isValid t arg"
    by (simp add: curried_def)
  have es: "(\<exists>r. curried_simple t arg = Result r) \<longleftrightarrow> fn_length t \<le> int (length arg)"
    by (simp add: curried_simple_def)
  have cs: "continuation_simple t pending nextArg = Continuation p \<longrightarrow>
      int (length p) < fn_length t"
    by (auto simp add: continuation_simple_def dest: curried_simple_Continuation)
  from w e es cs show ?thesis
    using curried_Continuation [of t arg p] continuation_Continuation [of t pending nextArg p]
      chain_Continuation [of t first later p] curried_simple_Continuation [of t arg p]
      chain_simple_Continuation [of t first later p]
    by blast
qed

theorem continuation_not_ready_witness:
  "curried join_target [Num 1, placeholder, Num 3] = Continuation [Num 1, placeholder, Num 3]
   \<and> continuation join_target [placeholder, placeholder, Num 3] [Num 1, placeholder] =
       Continuation [Num 1, placeholder, Num 3]
   \<and> chain join_target [placeholder, placeholder, Num 3] [[Num 1, placeholder]] =
       Some (Continuation [Num 1, placeholder, Num 3])
   \<and> 0 \<le> fn_length join_target
   \<and> \<not> isValid join_target [Num 1, placeholder, Num 3]
   \<and> curried_simple join_target [Num 1, Num 2] = Continuation [Num 1, Num 2]
   \<and> continuation_simple join_target [Num 1] [Num 2] = Continuation [Num 1, Num 2]
   \<and> chain_simple join_target [Num 1] [[Num 2]] = Some (Continuation [Num 1, Num 2])
   \<and> int (length [Num 1, Num 2]) < fn_length join_target"
proof -
  have arity: "0 \<le> fn_length join_target" by (simp add: join_target_def)
  from continuation_not_ready
    [of join_target "[Num 1, placeholder, Num 3]" "[Num 1, placeholder, Num 3]"
      "[placeholder, placeholder, Num 3]" "[Num 1, placeholder]"
      "[placeholder, placeholder, Num 3]" "[[Num 1, placeholder]]"]
    curried_join_pending
  have pending: "\<not> isValid join_target [Num 1, placeholder, Num 3]"
    by blast
  from continuation_not_ready
    [of join_target "[Num 1, Num 2]" "[Num 1, Num 2]" "[Num 1]" "[Num 2]" "[Num 1]" "[[Num 2]]"]
    chain_simple_join_pending
  have short: "int (length [Num 1, Num 2]) < fn_length join_target"
    by blast
  from curried_join_pending continuation_join_pending chain_join_pending arity pending
    curried_simple_join_pending continuation_simple_join_pending chain_simple_join_pending short
  show ?thesis by blast
qed

text \<open>
  C10, as the code has it.  \<open>flat\<close> skips the holes of sparse arrays at every nesting
  level that it flattens.  A hole contributes no element to the output; removing beforehand
  the holes of the array and of every nested array that the flattening descends into
  leaves the output unchanged; an element set to \<open>undefined\<close> is kept; the output of a
  concatenation is the concatenation of the outputs, so the elements appear from left to
  right; a nested array is replaced by its own flattening with the depth lowered by one
  while the depth is positive, and is kept whole as one element otherwise; with the depth
  \<open>Infinity\<close> no array is left in the output.  The array of the source's example gives the
  output that the source's comment states.  Over the store of arrays, a call that returns
  leaves every array that existed before the call as it was and returns a new array; and
  on an input that is a sparse array of values the call returns, given fuel for its
  rounds, a new array holding the output above, the input still holding what it held.
\<close>

theorem flat_skips_holes:
  "flat (xs @ None # ys) d = flat (xs @ ys) d
   \<and> flat (without_holes arr d) d = flat arr d
   \<and> None \<notin> set (without_holes arr d)
   \<and> flat (xs @ Some Undefined # ys) d = flat xs d @ Undefined # flat ys d
   \<and> flat (xs @ ys) d = flat xs d @ flat ys d
   \<and> flat (Some v # ys) d =
       (case v of
          Arr inner \<Rightarrow> if depth_positive d then flat inner (depth_next d) @ flat ys d
                       else v # flat ys d
        | _ \<Rightarrow> v # flat ys d)
   \<and> flat [] d = []
   \<and> Arr kept \<notin> set (flat arr Infinity)
   \<and> flat example_arr Infinity =
       [Num 1, Num 2, Undefined, Num 3, Num 4, Num 5, Num 6, Num 7, Num 8, Num 9, Num 10]
   \<and> (flat_store fuel a d s = Some (r, s') \<longrightarrow>
        r = length s \<and> length s' = Suc (length s) \<and> take (length s) s' = s)
   \<and> (a < length s \<and> represents_slots s arr (s ! a) \<and> steps_slots arr \<le> fuel \<longrightarrow>
        (\<exists>s'. flat_store fuel a d s = Some (length s, s') \<and> take (length s) s' = s \<and>
           represents_slots s' (map Some (flat arr d)) (s' ! length s) \<and>
           represents_slots s' arr (s' ! a)))"
proof -
  have hole: "flat (xs @ None # ys) d = flat (xs @ ys) d"
    by (simp add: flat_append flat_Cons_None)
  have undef: "flat (xs @ Some Undefined # ys) d = flat xs d @ Undefined # flat ys d"
    by (simp add: flat_append flat_Cons_Some)
  have empty: "flat [] d = []" by (simp add: flat_def)
  have frame: "flat_store fuel a d s = Some (r, s') \<longrightarrow>
        r = length s \<and> length s' = Suc (length s) \<and> take (length s) s' = s"
    using flat_store_frame [of fuel a d s r s'] by blast
  have computes: "a < length s \<and> represents_slots s arr (s ! a) \<and> steps_slots arr \<le> fuel \<longrightarrow>
        (\<exists>s'. flat_store fuel a d s = Some (length s, s') \<and> take (length s) s' = s \<and>
           represents_slots s' (map Some (flat arr d)) (s' ! length s) \<and>
           represents_slots s' arr (s' ! a))"
    using flat_store_represents [of a s arr fuel d] by blast
  have pure: "flat (xs @ None # ys) d = flat (xs @ ys) d
   \<and> flat (without_holes arr d) d = flat arr d
   \<and> None \<notin> set (without_holes arr d)
   \<and> flat (xs @ Some Undefined # ys) d = flat xs d @ Undefined # flat ys d
   \<and> flat (xs @ ys) d = flat xs d @ flat ys d
   \<and> flat (Some v # ys) d =
       (case v of
          Arr inner \<Rightarrow> if depth_positive d then flat inner (depth_next d) @ flat ys d
                       else v # flat ys d
        | _ \<Rightarrow> v # flat ys d)
   \<and> flat [] d = []
   \<and> Arr kept \<notin> set (flat arr Infinity)
   \<and> flat example_arr Infinity =
       [Num 1, Num 2, Undefined, Num 3, Num 4, Num 5, Num 6, Num 7, Num 8, Num 9, Num 10]"
    using hole undef empty flat_without_holes [of arr d] without_holes_no_hole [of arr d]
      flat_append [of xs ys d] flat_Cons_Some [of v ys d] flat_example
      flat_Infinity_no_array [of kept arr]
    by blast
  from pure frame computes show ?thesis by blast
qed

theorem flat_skips_holes_witness:
  "flat_store 20 0 (Finite 1) sparse_store =
     Some (3, sparse_store @ [[Some (SNum 1), Some (SNum 2), Some SUndefined, Some (SRef 2)]])
   \<and> take (length sparse_store)
        (sparse_store @ [[Some (SNum 1), Some (SNum 2), Some SUndefined, Some (SRef 2)]])
       = sparse_store
   \<and> 0 < length sparse_store
   \<and> represents_slots sparse_store sparse_tree (sparse_store ! 0)
   \<and> steps_slots sparse_tree \<le> 20
   \<and> represents_slots
        (sparse_store @ [[Some (SNum 1), Some (SNum 2), Some SUndefined, Some (SRef 2)]])
        (map Some (flat sparse_tree (Finite 1)))
        ((sparse_store @ [[Some (SNum 1), Some (SNum 2), Some SUndefined, Some (SRef 2)]])
           ! length sparse_store)
   \<and> flat sparse_tree (Finite 1) =
       [Num 1, Num 2, Undefined, Arr [Some (Num 3), None, Some (Num 4)]]"
proof -
  let ?s' = "sparse_store @ [[Some (SNum 1), Some (SNum 2), Some SUndefined, Some (SRef 2)]]"
  have address: "0 < length sparse_store" by (simp add: sparse_store_def)
  have three: "length sparse_store = 3" by (simp add: sparse_store_def)
  note run = sparse_run
  from flat_skips_holes [of _ _ "Finite 1" _ _ _ 20 0 sparse_store 3 ?s'] run
  have untouched: "take (length sparse_store) ?s' = sparse_store"
    by blast
  from flat_skips_holes [of _ _ "Finite 1" sparse_tree _ _ 20 0 sparse_store]
    address sparse_represented sparse_steps
  obtain s' where "flat_store 20 0 (Finite 1) sparse_store = Some (length sparse_store, s')"
    and held: "represents_slots s' (map Some (flat sparse_tree (Finite 1)))
      (s' ! length sparse_store)"
    by blast
  with run have "s' = ?s'" by simp
  with held have represented:
    "represents_slots ?s' (map Some (flat sparse_tree (Finite 1))) (?s' ! length sparse_store)"
    by simp
  from run untouched address sparse_represented sparse_steps represented sparse_flat
  show ?thesis by blast
qed

text \<open>
  C10, as the claim states it, fails below the depth limit: with depth 1 the array nested
  two levels down is kept whole as an element of the output, and its hole with it.
\<close>

theorem flat_keeps_hole_below_depth:
  "flat [Some (Num 1), None,
         Some (Arr [Some (Num 2), None, Some (Arr [Some (Num 3), None, Some (Num 4)])])]
        (Finite 1)
     = [Num 1, Num 2, Arr [Some (Num 3), None, Some (Num 4)]]"
  by (simp add: flat_def flattenHelper.simps(3))

end
